theory Spec2Isabelle
  imports Complex_Main
begin

section \<open>Data model (components/PointCloudAnimation.tsx, lines 6-20)\<close>

text \<open>
  JavaScript numbers are modelled as \<open>real\<close> where they are coordinates, intensities or
  random draws, and as \<open>nat\<close> where they are array indices and counters. The fields
  \<open>glowing\<close> and \<open>glowIntensity\<close> are shared by \<open>Vertex\<close> and \<open>Edge\<close>, so both
  records extend one base record. The edge fields \<open>from\<close> and \<open>to\<close> carry a suffix,
  since \<open>from\<close> is a keyword of the proof language.
\<close>

datatype Vector3 = Vector3 (vec_x: real) (vec_y: real) (vec_z: real)

record glowable =
  glowing :: bool
  glowIntensity :: real

record Vertex = glowable +
  position :: Vector3
  targetPosition :: Vector3
  initialPosition :: Vector3
  connections :: "nat list"

record Edge = glowable +
  from_v :: nat
  to_v :: nat

text \<open>
  \<open>Math.random()\<close> is a stream of draws \<open>random :: nat \<Rightarrow> real\<close>; the number of draws
  consumed so far is threaded through the state, so the k-th call of \<open>Math.random()\<close>
  returns \<open>random k\<close>.
\<close>

type_synonym random_source = "nat \<Rightarrow> real"

text \<open>Reading a property of \<open>undefined\<close> (an array read out of range) throws.\<close>

datatype error = TypeError

text \<open>
  Whether an edge joins two given vertices, in either direction: the test of the
  builder's duplicate check (lines 152-155) and of both \<open>findIndex\<close> calls of the
  traversal (lines 332-335 and 349-352).
\<close>

definition joins :: "nat \<Rightarrow> nat \<Rightarrow> Edge \<Rightarrow> bool" where
  "joins index connectedIdx edge \<longleftrightarrow>
     (from_v edge = index \<and> to_v edge = connectedIdx) \<or>
     (from_v edge = connectedIdx \<and> to_v edge = index)"

section \<open>Configuration (lines 34-41)\<close>

definition numVertices :: nat where
  "numVertices = 50"

definition numConnections :: nat where
  "numConnections = 3"

definition cloudRadius :: real where
  "cloudRadius = 5"

definition formingDuration :: nat where
  "formingDuration = 15"

datatype Color = Color (col_r: real) (col_g: real) (col_b: real)

text \<open>\<open>new THREE.Color(hex)\<close>: the three bytes of the hexadecimal triplet, each over 255.\<close>

definition colorOfHex :: "nat \<Rightarrow> Color" where
  "colorOfHex h =
     Color (real (h div 65536 mod 256) / 255) (real (h div 256 mod 256) / 255)
           (real (h mod 256) / 255)"

definition mattColor :: Color where
  "mattColor = colorOfHex 0x8a9ba8"

definition glowColor :: Color where
  "glowColor = colorOfHex 0xffd700"

section \<open>Graph builder: \<open>initializePointCloud\<close> (lines 104-170)\<close>

text \<open>\<open>THREE.Vector3.distanceTo\<close>: the Euclidean distance.\<close>

definition distanceTo :: "Vector3 \<Rightarrow> Vector3 \<Rightarrow> real" where
  "distanceTo a b =
     sqrt ((vec_x a - vec_x b)\<^sup>2 + (vec_y a - vec_y b)\<^sup>2 + (vec_z a - vec_z b)\<^sup>2)"

text \<open>The vertex pushed by one iteration of the loop of lines 109-124, drawing from \<open>k\<close> on.\<close>

definition newVertex :: "random_source \<Rightarrow> nat \<Rightarrow> Vertex" where
  "newVertex random k =
     (let p = Vector3 ((random k - 0.5) * cloudRadius)
                      ((random (k + 1) - 0.5) * cloudRadius)
                      ((random (k + 2) - 0.5) * cloudRadius * 0.5)
      in \<lparr>glowing = False, glowIntensity = 0, position = p, targetPosition = p,
          initialPosition = p, connections = []\<rparr>)"

definition createVertices :: "nat \<Rightarrow> random_source \<Rightarrow> Vertex list \<times> nat" where
  "createVertices n random =
     fold (\<lambda>i (vertices, k). (vertices @ [newVertex random k], k + 3)) [0..<n] ([], 0)"

text \<open>
  The search of lines 134-145. \<open>None\<close> stands for \<open>nearestIdx = -1\<close> with
  \<open>nearestDist = Infinity\<close>, below which every distance lies; the two variables are only
  written together.
\<close>

definition nearestUnconnected :: "Vertex list \<Rightarrow> nat \<Rightarrow> (nat \<times> real) option" where
  "nearestUnconnected vertices i =
     fold (\<lambda>j nearest.
        if i = j \<or> j \<in> set (connections (vertices ! i)) then nearest
        else
          (let dist = distanceTo (position (vertices ! i)) (position (vertices ! j))
           in case nearest of
                None \<Rightarrow> Some (j, dist)
              | Some (nearestIdx, nearestDist) \<Rightarrow>
                  if dist < nearestDist then Some (j, dist) else nearest))
       [0..<length vertices] None"

text \<open>The body of the loop over \<open>c\<close> (lines 133-165).\<close>

definition connectNearest :: "nat \<Rightarrow> Vertex list \<times> Edge list \<Rightarrow> Vertex list \<times> Edge list" where
  "connectNearest i = (\<lambda>(vertices, edges).
     case nearestUnconnected vertices i of
       None \<Rightarrow> (vertices, edges)
     | Some (nearestIdx, nearestDist) \<Rightarrow>
         (let vertices1 = vertices[i := (vertices ! i)
                \<lparr>connections := connections (vertices ! i) @ [nearestIdx]\<rparr>];
              vertices2 = vertices1[nearestIdx := (vertices1 ! nearestIdx)
                \<lparr>connections := connections (vertices1 ! nearestIdx) @ [i]\<rparr>];
              edgeExists = list_ex (joins i nearestIdx) edges
          in (vertices2,
              if \<not> edgeExists
              then edges @ [\<lparr>glowing = False, glowIntensity = 0, from_v = i, to_v = nearestIdx\<rparr>]
              else edges)))"

text \<open>The loop over \<open>i\<close> (lines 129-167); \<open>k\<close> counts the draws consumed.\<close>

definition createEdges ::
  "random_source \<Rightarrow> Vertex list \<times> nat \<Rightarrow> Vertex list \<times> Edge list \<times> nat" where
  "createEdges random = (\<lambda>(vertices0, k0).
     fold (\<lambda>i (vertices, edges, k).
        (let connectionsNeeded = nat \<lfloor>random k * 2\<rfloor> + numConnections;
             (vertices', edges') = (connectNearest i ^^ connectionsNeeded) (vertices, edges)
         in (vertices', edges', k + 1)))
       [0..<length vertices0] (vertices0, [], k0))"

text \<open>
  The values stored in \<open>verticesRef.current\<close> and \<open>edgesRef.current\<close> (lines 169-170),
  with the number of draws consumed. The captured constant \<open>numVertices\<close> is the parameter
  \<open>n\<close>; the component calls the function with \<open>numVertices = 50\<close>. The scene exists when
  the function is called (line 48 runs before line 66), so the early return of line 105
  is not taken.
\<close>

definition initializePointCloud :: "nat \<Rightarrow> random_source \<Rightarrow> Vertex list \<times> Edge list \<times> nat" where
  "initializePointCloud n random = createEdges random (createVertices n random)"

section \<open>Geometry projector: \<open>updateLineGeometry\<close> (lines 224-260)\<close>

text \<open>\<open>THREE.Color.lerp\<close>: each channel moves by \<open>alpha\<close> of the way to the other colour.\<close>

definition lerp :: "Color \<Rightarrow> Color \<Rightarrow> real \<Rightarrow> Color" where
  "lerp c1 c2 alpha =
     Color (col_r c1 + (col_r c2 - col_r c1) * alpha)
           (col_g c1 + (col_g c2 - col_g c1) * alpha)
           (col_b c1 + (col_b c2 - col_b c1) * alpha)"

text \<open>
  The six positions and six colour channels that one edge writes (lines 232-253), at
  offsets \<open>6 * i\<close> to \<open>6 * i + 5\<close> of the two buffers. An endpoint out of range reads
  \<open>undefined\<close>, and reading its position throws.
\<close>

definition edgeSegment :: "Vertex list \<Rightarrow> Edge \<Rightarrow> error + (real list \<times> real list)" where
  "edgeSegment vertices edge =
     (if from_v edge < length vertices \<and> to_v edge < length vertices then
        (let vertexFrom = vertices ! from_v edge;
             vertexTo = vertices ! to_v edge;
             fromColor = lerp mattColor glowColor
                           (max (glowIntensity vertexFrom) (glowIntensity edge));
             toColor = lerp mattColor glowColor
                         (max (glowIntensity vertexTo) (glowIntensity edge))
         in Inr ([vec_x (position vertexFrom), vec_y (position vertexFrom),
                  vec_z (position vertexFrom),
                  vec_x (position vertexTo), vec_y (position vertexTo),
                  vec_z (position vertexTo)],
                 [col_r fromColor, col_g fromColor, col_b fromColor,
                  col_r toColor, col_g toColor, col_b toColor]))
      else Inl TypeError)"

text \<open>
  The two buffers \<open>positions\<close> and \<open>colors\<close>, filled edge by edge in index order. The
  buffers hold reals here; the rounding to 32-bit floats is not modelled.
\<close>

definition updateLineGeometry :: "Vertex list \<Rightarrow> Edge list \<Rightarrow> error + (real list \<times> real list)" where
  "updateLineGeometry vertices edges =
     fold (\<lambda>edge r.
        case r of
          Inl e \<Rightarrow> Inl e
        | Inr (positions, colors) \<Rightarrow>
            (case edgeSegment vertices edge of
               Inl e \<Rightarrow> Inl e
             | Inr (ps, cs) \<Rightarrow> Inr (positions @ ps, colors @ cs)))
       edges (Inr ([], []))"

section \<open>Lifecycle state machine (lines 31, 83-86 and 262-290)\<close>

datatype stage = initializing | forming | stable

text \<open>
  The callbacks the host can run: the timeout of line 83, the \<open>onComplete\<close> of the
  position tween of vertex \<open>i\<close> (line 283), a frame (\<open>animate\<close>, line 413) and the glow
  timer (line 295). An event is a callback with the time, in milliseconds since
  activation, at which the host runs it.
\<close>

datatype callback = FormingTimeout | TweenComplete nat | Frame | GlowTimer

type_synonym event = "nat \<times> callback"

text \<open>
  The part of the component's state that decides the stage: \<open>stageRef\<close>, the clock,
  the due time of the pending timeout, the pending position tweens (vertex index and
  completion time) and the number of vertices.
\<close>

record lifecycle =
  stageRef :: stage
  clock :: nat
  timeout :: "nat option"
  tweens :: "(nat \<times> nat) list"
  vertexCount :: nat

text \<open>Activation (lines 31 and 83-86): the stage starts as initializing, the timeout is set.\<close>

definition activate :: "nat \<Rightarrow> lifecycle" where
  "activate n =
     \<lparr>stageRef = initializing, clock = 0, timeout = Some 2000, tweens = [],
      vertexCount = n\<rparr>"

text \<open>
  \<open>setCircleTargets\<close> (lines 262-290), as far as the stage is concerned: one tween per
  vertex, in index order, each lasting \<open>formingDuration\<close> seconds.
\<close>

definition setCircleTargets :: "lifecycle \<Rightarrow> lifecycle" where
  "setCircleTargets s =
     s\<lparr>tweens := map (\<lambda>i. (i, clock s + formingDuration * 1000)) [0..<vertexCount s]\<rparr>"

text \<open>The \<open>onComplete\<close> of vertex \<open>i\<close> (lines 283-287).\<close>

definition onComplete :: "nat \<Rightarrow> lifecycle \<Rightarrow> lifecycle" where
  "onComplete i s = (if int i = int (vertexCount s) - 1 then s\<lparr>stageRef := stable\<rparr> else s)"

text \<open>
  The host runs a callback only while it is pending and not before it is due, and time
  does not run backwards; \<open>None\<close> when the host cannot run the event in this state.
  Frames and glow pulses never write the stage.
\<close>

fun fire :: "event \<Rightarrow> lifecycle \<Rightarrow> lifecycle option" where
  "fire (t, FormingTimeout) s =
     (case timeout s of
        Some due \<Rightarrow>
          if clock s \<le> t \<and> due \<le> t
          then Some (setCircleTargets (s\<lparr>clock := t, timeout := None, stageRef := forming\<rparr>))
          else None
      | None \<Rightarrow> None)"
| "fire (t, TweenComplete i) s =
     (case map_of (tweens s) i of
        Some due \<Rightarrow>
          if clock s \<le> t \<and> due \<le> t
          then Some (onComplete i
                 (s\<lparr>clock := t, tweens := filter (\<lambda>(j, d). j \<noteq> i) (tweens s)\<rparr>))
          else None
      | None \<Rightarrow> None)"
| "fire (t, Frame) s = (if clock s \<le> t then Some (s\<lparr>clock := t\<rparr>) else None)"
| "fire (t, GlowTimer) s = (if clock s \<le> t then Some (s\<lparr>clock := t\<rparr>) else None)"

fun run :: "event list \<Rightarrow> lifecycle \<Rightarrow> lifecycle option" where
  "run [] s = Some s"
| "run (ev # evs) s = (case fire ev s of None \<Rightarrow> None | Some s' \<Rightarrow> run evs s')"

text \<open>The stage changes of a run: the event, the stage before and the stage after.\<close>

fun transitions :: "event list \<Rightarrow> lifecycle \<Rightarrow> (event \<times> stage \<times> stage) list" where
  "transitions [] s = []"
| "transitions (ev # evs) s =
     (case fire ev s of
        None \<Rightarrow> []
      | Some s' \<Rightarrow>
          (if stageRef s' \<noteq> stageRef s then [(ev, stageRef s, stageRef s')] else [])
          @ transitions evs s')"

section \<open>Glow propagator: cluster selection (lines 316-365)\<close>

text \<open>\<open>Array.prototype.findIndex\<close>; \<open>None\<close> stands for the result \<open>-1\<close>.\<close>

fun findIndex :: "('a \<Rightarrow> bool) \<Rightarrow> 'a list \<Rightarrow> nat option" where
  "findIndex P [] = None"
| "findIndex P (e # es) = (if P e then Some 0 else map_option Suc (findIndex P es))"

record glow_state =
  nodesToGlow :: "nat list"
  edgesToGlow :: "nat list"
  rng :: nat

text \<open>
  The body of the \<open>for ... of\<close> loop of \<open>addConnectedVertices\<close> (lines 329-362) for one
  neighbour \<open>connectedIdx\<close> of the vertex \<open>index\<close>. The captured variables \<open>edges\<close>,
  \<open>maxGlowNodes\<close> and the random source are parameters; the captured arrays
  \<open>nodesToGlow\<close> and \<open>edgesToGlow\<close> are the state, passed in and returned; the
  recursive call of line 359 is the parameter \<open>recurse\<close>. \<open>continue\<close> ends the body.
\<close>

definition visitConnection ::
  "(nat \<Rightarrow> glow_state \<Rightarrow> error + glow_state) \<Rightarrow> Edge list \<Rightarrow> nat \<Rightarrow> random_source
     \<Rightarrow> nat \<Rightarrow> nat \<Rightarrow> glow_state \<Rightarrow> error + glow_state" where
  "visitConnection recurse edges maxGlowNodes random index connectedIdx s =
     (if connectedIdx \<in> set (nodesToGlow s) then
        (case findIndex (joins index connectedIdx) edges of
           Some edgeIndex \<Rightarrow>
             if edgeIndex \<notin> set (edgesToGlow s)
             then Inr (s\<lparr>edgesToGlow := edgesToGlow s @ [edgeIndex]\<rparr>)
             else Inr s
         | None \<Rightarrow> Inr s)
      else if random (rng s) > 0.7 then
        (let s1 = s\<lparr>rng := rng s + 1, nodesToGlow := nodesToGlow s @ [connectedIdx]\<rparr>;
             s2 = (case findIndex (joins index connectedIdx) edges of
                     Some edgeIndex \<Rightarrow> s1\<lparr>edgesToGlow := edgesToGlow s1 @ [edgeIndex]\<rparr>
                   | None \<Rightarrow> s1)
         in if length (nodesToGlow s2) < maxGlowNodes then recurse connectedIdx s2
            else Inr s2)
      else Inr (s\<lparr>rng := rng s + 1\<rparr>))"

text \<open>
  \<open>addConnectedVertices\<close> (lines 324-363), with \<open>vertices\<close> a parameter as well. The loop
  is a \<open>fold\<close> of the body over \<open>vertex.connections\<close>; an exception ends it.
\<close>

function addConnectedVertices ::
  "Vertex list \<Rightarrow> Edge list \<Rightarrow> nat \<Rightarrow> random_source \<Rightarrow> nat \<Rightarrow> nat \<Rightarrow> glow_state
     \<Rightarrow> error + glow_state" where
  "addConnectedVertices vertices edges maxGlowNodes random index depth st =
     (if depth > 2 \<or> length (nodesToGlow st) \<ge> maxGlowNodes then Inr st
      else if index \<ge> length vertices then Inl TypeError
      else fold (\<lambda>connectedIdx r.
             case r of
               Inl e \<Rightarrow> Inl e
             | Inr s \<Rightarrow>
                 visitConnection
                   (\<lambda>c s2. addConnectedVertices vertices edges maxGlowNodes random c (depth + 1) s2)
                   edges maxGlowNodes random index connectedIdx s)
             (connections (vertices ! index)) (Inr st))"
  by pat_completeness auto
termination
  by (relation "measure (\<lambda>(vertices, edges, maxGlowNodes, random, index, depth, st). 3 - depth)")
     auto

text \<open>
  The selection part of \<open>startGlowingSection\<close> (lines 301-365 and the two flag writes of
  lines 372 and 393). \<open>rng0\<close> is the number of draws consumed before the call. The
  result holds the arrays after the reset and the \<open>glowing = true\<close> writes, and the final
  \<open>nodesToGlow\<close> and \<open>edgesToGlow\<close>: the pulse starts one fade-in tween for each entry
  of either list (lines 374 and 395).
\<close>

definition resetGlow :: "'a glowable_scheme \<Rightarrow> 'a glowable_scheme" where
  "resetGlow v = v\<lparr>glowing := False, glowIntensity := 0\<rparr>"

definition markGlowing :: "'a glowable_scheme list \<Rightarrow> nat list \<Rightarrow> error + 'a glowable_scheme list" where
  "markGlowing elems indices =
     fold (\<lambda>index r.
        case r of
          Inl e \<Rightarrow> Inl e
        | Inr xs \<Rightarrow>
            if index < length xs then Inr (xs[index := (xs ! index)\<lparr>glowing := True\<rparr>])
            else Inl TypeError)
       indices (Inr elems)"

definition startGlowingSection ::
  "Vertex list \<Rightarrow> Edge list \<Rightarrow> random_source \<Rightarrow> nat
     \<Rightarrow> error + (Vertex list \<times> Edge list \<times> glow_state)" where
  "startGlowingSection vertices0 edges0 random rng0 =
     (let vertices = map resetGlow vertices0;
          edges = map resetGlow edges0;
          startIndex = nat \<lfloor>random rng0 * real (length vertices)\<rfloor>;
          maxGlowNodes = nat \<lfloor>random (rng0 + 1) * 10\<rfloor> + 5
      in case addConnectedVertices vertices edges maxGlowNodes random startIndex 0
                \<lparr>nodesToGlow = [startIndex], edgesToGlow = [], rng = rng0 + 2\<rparr> of
           Inl e \<Rightarrow> Inl e
         | Inr st \<Rightarrow>
             (case markGlowing vertices (nodesToGlow st) of
                Inl e \<Rightarrow> Inl e
              | Inr vertices' \<Rightarrow>
                  (case markGlowing edges (edgesToGlow st) of
                     Inl e \<Rightarrow> Inl e
                   | Inr edges' \<Rightarrow> Inr (vertices', edges', st))))"

section \<open>Glow propagator: the pulse animations on one element (lines 292-314 and 367-410)\<close>
















section \<open>Invariant of the cluster selection\<close>

text \<open>
  What the traversal keeps true of its two arrays: no index occurs twice in either, and
  every marked edge exists and joins two selected vertices.
\<close>

definition glow_inv :: "Edge list \<Rightarrow> glow_state \<Rightarrow> bool" where
  "glow_inv edges st \<longleftrightarrow>
     distinct (nodesToGlow st) \<and> distinct (edgesToGlow st) \<and>
     (\<forall>e\<in>set (edgesToGlow st).
        e < length edges \<and> from_v (edges ! e) \<in> set (nodesToGlow st) \<and>
        to_v (edges ! e) \<in> set (nodesToGlow st))"

text \<open>
  A bound on the draws of a traversal that starts at the given depth, when no adjacency
  list has more than \<open>d\<close> entries: one draw per neighbour, on at most three levels.
\<close>

definition drawBound :: "nat \<Rightarrow> nat \<Rightarrow> nat" where
  "drawBound d depth =
     (if depth = 0 then d + d\<^sup>2 + d ^ 3 else if depth = 1 then d + d\<^sup>2
      else if depth = 2 then d else 0)"

section \<open>Predicates for the graph builder\<close>

text \<open>
  What the edge loop keeps true of the two arrays it builds: the vertex count, every
  recorded connection is a valid index other than the vertex itself and is recorded on
  both sides, every edge joins two different valid indices that are connected, and no
  two edges join the same pair.
\<close>

definition graph_inv :: "nat \<Rightarrow> Vertex list \<Rightarrow> Edge list \<Rightarrow> bool" where
  "graph_inv n vertices edges \<longleftrightarrow>
     length vertices = n \<and>
     (\<forall>i<n. \<forall>j\<in>set (connections (vertices ! i)).
        j < n \<and> j \<noteq> i \<and> i \<in> set (connections (vertices ! j))) \<and>
     (\<forall>e\<in>set edges.
        from_v e \<noteq> to_v e \<and> from_v e < n \<and> to_v e < n \<and>
        to_v e \<in> set (connections (vertices ! from_v e))) \<and>
     (\<forall>a<length edges. \<forall>b<length edges.
        a \<noteq> b \<longrightarrow> \<not> joins (from_v (edges ! a)) (to_v (edges ! a)) (edges ! b))"

text \<open>
  Membership in the solid ellipsoid centred at the origin with semi-axes \<open>a\<close>, \<open>b\<close> and
  \<open>c\<close> along X, Y and Z.
\<close>

definition insideEllipsoid :: "real \<Rightarrow> real \<Rightarrow> real \<Rightarrow> Vector3 \<Rightarrow> bool" where
  "insideEllipsoid a b c p \<longleftrightarrow> (vec_x p / a)\<^sup>2 + (vec_y p / b)\<^sup>2 + (vec_z p / c)\<^sup>2 \<le> 1"

section \<open>Predicates for the projector, the lifecycle and the pulse\<close>

text \<open>The six colour channels \<open>updateLineGeometry\<close> writes for one edge.\<close>

definition segmentColors :: "Vertex list \<Rightarrow> Edge \<Rightarrow> real list" where
  "segmentColors vertices edge =
     (case edgeSegment vertices edge of Inr (ps, cs) \<Rightarrow> cs | Inl e \<Rightarrow> [])"

text \<open>
  The three phases of the lifecycle, as they show in the state: before the timeout has
  run; after it has run at time \<open>t1\<close>, while the tween of the last vertex is pending;
  and after that tween has completed.
\<close>

definition initializingPhase :: "nat \<Rightarrow> lifecycle \<Rightarrow> bool" where
  "initializingPhase n s \<longleftrightarrow>
     stageRef s = initializing \<and> timeout s = Some 2000 \<and> tweens s = [] \<and> vertexCount s = n"

definition formingPhase :: "nat \<Rightarrow> nat \<Rightarrow> lifecycle \<Rightarrow> bool" where
  "formingPhase n t1 s \<longleftrightarrow>
     stageRef s = forming \<and> timeout s = None \<and> vertexCount s = n \<and>
     map_of (tweens s) (n - 1) = Some (t1 + 15000)"

definition stablePhase :: "nat \<Rightarrow> lifecycle \<Rightarrow> bool" where
  "stablePhase n s \<longleftrightarrow>
     stageRef s = stable \<and> timeout s = None \<and> vertexCount s = n \<and>
     map_of (tweens s) (n - 1) = None"




section \<open>Random sources and small graphs for concrete runs\<close>

text \<open>A source whose draws are the given list and then the value \<open>d\<close> forever.\<close>

definition drawsFrom :: "real list \<Rightarrow> real \<Rightarrow> random_source" where
  "drawsFrom xs d k = (if k < length xs then xs ! k else d)"

definition constantDraws :: "real \<Rightarrow> random_source" where
  "constantDraws d = drawsFrom [] d"

text \<open>A vertex at the origin with the given adjacency list, and an edge between two indices.\<close>

definition vertexWith :: "nat list \<Rightarrow> Vertex" where
  "vertexWith cs =
     \<lparr>glowing = False, glowIntensity = 0, position = Vector3 0 0 0,
      targetPosition = Vector3 0 0 0, initialPosition = Vector3 0 0 0, connections = cs\<rparr>"

definition edgeBetween :: "nat \<Rightarrow> nat \<Rightarrow> Edge" where
  "edgeBetween a b = \<lparr>glowing = False, glowIntensity = 0, from_v = a, to_v = b\<rparr>"

text \<open>Two vertices joined by one edge.\<close>

definition pairVertices :: "Vertex list" where
  "pairVertices = [vertexWith [1], vertexWith [0]]"

definition pairEdges :: "Edge list" where
  "pairEdges = [edgeBetween 0 1]"

text \<open>
  The square 0-1, 1-2, 2-3, 3-0; the adjacency list of each vertex is a parameter, so
  that either order of its two neighbours can be chosen.
\<close>

definition squareVertices :: "nat list \<Rightarrow> nat list \<Rightarrow> nat list \<Rightarrow> nat list \<Rightarrow> Vertex list" where
  "squareVertices c0 c1 c2 c3 = [vertexWith c0, vertexWith c1, vertexWith c2, vertexWith c3]"

definition squareEdges :: "Edge list" where
  "squareEdges = [edgeBetween 0 1, edgeBetween 1 2, edgeBetween 2 3, edgeBetween 3 0]"

text \<open>
  The graph the builder makes for six vertices when every draw is 0: the six positions
  coincide, and every vertex ends up connected to every other.
\<close>

definition sixVertexCloud :: "Vertex list \<times> Edge list \<times> nat" where
  "sixVertexCloud = initializePointCloud 6 (constantDraws 0)"

text \<open>
  Draws that put five vertices on the X axis, at -2.5, -1.5, -0.5, 0.5 and 1.5, and then
  ask for three connections per vertex.
\<close>

definition lineDraws :: random_source where
  "lineDraws =
     drawsFrom [0, 0.5, 0.5,  0.2, 0.5, 0.5,  0.4, 0.5, 0.5,  0.6, 0.5, 0.5,  0.8, 0.5, 0.5] 0"

text \<open>
  Two vertices joined by one edge, in the middle of a pulse: vertex 0 at intensity 1/2,
  vertex 1 at 0, the edge at 1/4.
\<close>

definition glowingPairVertices :: "Vertex list" where
  "glowingPairVertices = [(vertexWith [1])\<lparr>glowIntensity := 1 / 2\<rparr>, vertexWith [0]]"

definition glowingPairEdges :: "Edge list" where
  "glowingPairEdges = [(edgeBetween 0 1)\<lparr>glowIntensity := 1 / 4\<rparr>]"

section \<open>Properties of the cluster selection\<close>

text \<open>
  The recursive equation is unfolded by hand, one call at a time; concrete runs name it.
\<close>

declare addConnectedVertices.simps [simp del]

lemma fold_Inl: "fold (\<lambda>x. case_sum Inl (f x)) xs (Inl e) = Inl e"
  by (induction xs) simp_all

lemma fold_sum_invariant:
  assumes "fold (\<lambda>x. case_sum Inl (f x)) xs (Inr s) = Inr s'"
    and "I s"
    and "\<And>x a b. x \<in> set xs \<Longrightarrow> I a \<Longrightarrow> f x a = Inr b \<Longrightarrow> I b"
  shows "I s'"
  using assms
proof (induction xs arbitrary: s)
  case Nil
  then show ?case by simp
next
  case (Cons x xs)
  show ?case
  proof (cases "f x s")
    case (Inl e)
    with Cons.prems(1) show ?thesis by (simp add: fold_Inl)
  next
    case (Inr b)
    have b: "I b" using Cons.prems(2,3) Inr by auto
    have step: "fold (\<lambda>x. case_sum Inl (f x)) xs (Inr b) = Inr s'"
      using Cons.prems(1) Inr by simp
    show ?thesis
      by (rule Cons.IH[OF step b]) (use Cons.prems(3) in auto)
  qed
qed

lemma findIndex_Some:
  "findIndex P xs = Some i \<Longrightarrow> i < length xs \<and> P (xs ! i)"
proof (induction xs arbitrary: i)
  case Nil
  then show ?case by simp
next
  case (Cons x xs)
  then show ?case by (auto split: if_splits)
qed

lemma visitConnection_inv:
  assumes rec: "\<And>s2 s3. connectedIdx \<in> set (nodesToGlow s2) \<Longrightarrow> glow_inv edges s2 \<Longrightarrow>
                  recurse connectedIdx s2 = Inr s3 \<Longrightarrow>
                  glow_inv edges s3 \<and> set (nodesToGlow s2) \<subseteq> set (nodesToGlow s3)"
    and idx: "index \<in> set (nodesToGlow s)"
    and inv: "glow_inv edges s"
    and res: "visitConnection recurse edges maxGlowNodes random index connectedIdx s = Inr s'"
  shows "glow_inv edges s' \<and> set (nodesToGlow s) \<subseteq> set (nodesToGlow s')"
proof (cases "connectedIdx \<in> set (nodesToGlow s)")
  case True
  show ?thesis
  proof (cases "findIndex (joins index connectedIdx) edges")
    case None
    with True res show ?thesis using inv by (simp add: visitConnection_def)
  next
    case (Some e)
    from findIndex_Some[OF Some] have e: "e < length edges" "joins index connectedIdx (edges ! e)"
      by simp_all
    show ?thesis
    proof (cases "e \<in> set (edgesToGlow s)")
      case True
      with \<open>connectedIdx \<in> set (nodesToGlow s)\<close> Some res inv show ?thesis
        by (simp add: visitConnection_def)
    next
      case False
      with \<open>connectedIdx \<in> set (nodesToGlow s)\<close> Some res
      have s': "s' = s\<lparr>edgesToGlow := edgesToGlow s @ [e]\<rparr>"
        by (simp add: visitConnection_def)
      from e idx True have "from_v (edges ! e) \<in> set (nodesToGlow s)" "to_v (edges ! e) \<in> set (nodesToGlow s)"
        by (auto simp: joins_def)
      with inv False e show ?thesis unfolding s' glow_inv_def by auto
    qed
  qed
next
  case False
  note notsel = False
  show ?thesis
  proof (cases "random (rng s) > 0.7")
    case False
    with notsel res have "s' = s\<lparr>rng := rng s + 1\<rparr>" by (simp add: visitConnection_def)
    with inv show ?thesis by (simp add: glow_inv_def)
  next
    case True
    define s1 where "s1 = s\<lparr>rng := rng s + 1, nodesToGlow := nodesToGlow s @ [connectedIdx]\<rparr>"
    define s2 where "s2 = (case findIndex (joins index connectedIdx) edges of
                     Some edgeIndex \<Rightarrow> s1\<lparr>edgesToGlow := edgesToGlow s1 @ [edgeIndex]\<rparr>
                   | None \<Rightarrow> s1)"
    have inv1: "glow_inv edges s1"
      using inv notsel unfolding s1_def glow_inv_def by auto
    have nodes2: "nodesToGlow s2 = nodesToGlow s @ [connectedIdx]"
      unfolding s2_def s1_def by (simp split: option.splits)
    have inv2: "glow_inv edges s2"
    proof (cases "findIndex (joins index connectedIdx) edges")
      case None
      then show ?thesis using inv1 by (simp add: s2_def)
    next
      case (Some e)
      from findIndex_Some[OF Some] have e: "e < length edges" "joins index connectedIdx (edges ! e)"
        by simp_all
      have "e \<notin> set (edgesToGlow s)"
      proof
        assume "e \<in> set (edgesToGlow s)"
        with inv have "from_v (edges ! e) \<in> set (nodesToGlow s)" "to_v (edges ! e) \<in> set (nodesToGlow s)"
          by (auto simp: glow_inv_def)
        with e(2) notsel show False by (auto simp: joins_def)
      qed
      moreover have "from_v (edges ! e) \<in> set (nodesToGlow s1)" "to_v (edges ! e) \<in> set (nodesToGlow s1)"
        using e(2) idx by (auto simp: joins_def s1_def)
      ultimately show ?thesis
        using inv1 e(1) Some unfolding s2_def glow_inv_def by (auto simp: s1_def)
    qed
    have res': "(if length (nodesToGlow s2) < maxGlowNodes then recurse connectedIdx s2 else Inr s2) = Inr s'"
      using res notsel True unfolding visitConnection_def s2_def s1_def Let_def
      by (simp only: if_False if_True)
    show ?thesis
    proof (cases "length (nodesToGlow s2) < maxGlowNodes")
      case True
      with res' have "recurse connectedIdx s2 = Inr s3" if "s3 = s'" for s3 using that by simp
      then have "glow_inv edges s' \<and> set (nodesToGlow s2) \<subseteq> set (nodesToGlow s')"
        using rec[of s2 s'] inv2 nodes2 by simp
      then show ?thesis using nodes2 by auto
    next
      case False
      with res' have "s' = s2" by simp
      then show ?thesis using inv2 nodes2 by auto
    qed
  qed
qed

lemma addConnectedVertices_inv:
  "index \<in> set (nodesToGlow st) \<Longrightarrow> glow_inv edges st \<Longrightarrow>
   addConnectedVertices vertices edges maxGlowNodes random index depth st = Inr st' \<Longrightarrow>
   glow_inv edges st' \<and> set (nodesToGlow st) \<subseteq> set (nodesToGlow st')"
proof (induction vertices edges maxGlowNodes random index depth st arbitrary: st'
       rule: addConnectedVertices.induct)
  case (1 vertices edges maxGlowNodes random index depth st)
  show ?case
  proof (cases "depth > 2 \<or> length (nodesToGlow st) \<ge> maxGlowNodes")
    case True
    with "1.prems" show ?thesis by (simp add: addConnectedVertices.simps)
  next
    case False
    note guard = False
    show ?thesis
    proof (cases "index \<ge> length vertices")
      case True
      with guard "1.prems"(3) show ?thesis by (simp add: addConnectedVertices.simps)
    next
      case False
      let ?rec = "\<lambda>c s2. addConnectedVertices vertices edges maxGlowNodes random c (depth + 1) s2"
      let ?I = "\<lambda>s. index \<in> set (nodesToGlow s) \<and> glow_inv edges s \<and>
                     set (nodesToGlow st) \<subseteq> set (nodesToGlow s)"
      have fold: "fold (\<lambda>c. case_sum Inl (visitConnection ?rec edges maxGlowNodes random index c))
                    (connections (vertices ! index)) (Inr st) = Inr st'"
        using "1.prems"(3) guard False by (subst (asm) addConnectedVertices.simps) simp
      have "?I st'"
      proof (rule fold_sum_invariant[OF fold, where I = ?I])
        show "?I st" using "1.prems" by simp
      next
        fix x a b
        assume x: "x \<in> set (connections (vertices ! index))" and a: "?I a"
          and v: "visitConnection ?rec edges maxGlowNodes random index x a = Inr b"
        have "glow_inv edges b \<and> set (nodesToGlow a) \<subseteq> set (nodesToGlow b)"
        proof (rule visitConnection_inv[OF _ _ _ v])
          fix s2 s3
          assume "x \<in> set (nodesToGlow s2)" "glow_inv edges s2" "?rec x s2 = Inr s3"
          then show "glow_inv edges s3 \<and> set (nodesToGlow s2) \<subseteq> set (nodesToGlow s3)"
            using "1.IH"[OF guard False x] by blast
        qed (use a in simp_all)
        with a show "?I b" by auto
      qed
      then show ?thesis by simp
    qed
  qed
qed


lemma visitConnection_nodes_mono:
  assumes rec: "\<And>s2 s3. recurse connectedIdx s2 = Inr s3 \<Longrightarrow>
                  set (nodesToGlow s2) \<subseteq> set (nodesToGlow s3)"
    and res: "visitConnection recurse edges maxGlowNodes random index connectedIdx s = Inr s'"
  shows "set (nodesToGlow s) \<subseteq> set (nodesToGlow s')"
proof (cases "connectedIdx \<in> set (nodesToGlow s)")
  case True
  with res show ?thesis
    by (auto simp: visitConnection_def split: option.splits if_splits)
next
  case False
  note notsel = False
  show ?thesis
  proof (cases "random (rng s) > 0.7")
    case False
    with notsel res show ?thesis by (auto simp: visitConnection_def)
  next
    case True
    define s2 where "s2 = (case findIndex (joins index connectedIdx) edges of
         Some edgeIndex \<Rightarrow> s\<lparr>rng := rng s + 1, nodesToGlow := nodesToGlow s @ [connectedIdx],
            edgesToGlow := edgesToGlow (s\<lparr>rng := rng s + 1, nodesToGlow := nodesToGlow s @ [connectedIdx]\<rparr>) @ [edgeIndex]\<rparr>
       | None \<Rightarrow> s\<lparr>rng := rng s + 1, nodesToGlow := nodesToGlow s @ [connectedIdx]\<rparr>)"
    have nodes2: "nodesToGlow s2 = nodesToGlow s @ [connectedIdx]"
      unfolding s2_def by (simp split: option.splits)
    have res': "(if length (nodesToGlow s2) < maxGlowNodes then recurse connectedIdx s2 else Inr s2) = Inr s'"
      using res notsel True unfolding visitConnection_def s2_def Let_def
      by (simp only: if_False if_True)
    show ?thesis
    proof (cases "length (nodesToGlow s2) < maxGlowNodes")
      case True
      with res' have "recurse connectedIdx s2 = Inr s'" by simp
      from rec[OF this] nodes2 show ?thesis by auto
    next
      case False
      with res' nodes2 show ?thesis by auto
    qed
  qed
qed

lemma addConnectedVertices_nodes_mono:
  "addConnectedVertices vertices edges maxGlowNodes random index depth st = Inr st' \<Longrightarrow>
   set (nodesToGlow st) \<subseteq> set (nodesToGlow st')"
proof (induction vertices edges maxGlowNodes random index depth st arbitrary: st'
       rule: addConnectedVertices.induct)
  case (1 vertices edges maxGlowNodes random index depth st)
  show ?case
  proof (cases "depth > 2 \<or> length (nodesToGlow st) \<ge> maxGlowNodes")
    case True
    with "1.prems" show ?thesis by (simp add: addConnectedVertices.simps)
  next
    case False
    note guard = False
    show ?thesis
    proof (cases "index \<ge> length vertices")
      case True
      with guard "1.prems" show ?thesis by (simp add: addConnectedVertices.simps)
    next
      case False
      let ?rec = "\<lambda>c s2. addConnectedVertices vertices edges maxGlowNodes random c (depth + 1) s2"
      let ?I = "\<lambda>s. set (nodesToGlow st) \<subseteq> set (nodesToGlow s)"
      have fold: "fold (\<lambda>c. case_sum Inl (visitConnection ?rec edges maxGlowNodes random index c))
                    (connections (vertices ! index)) (Inr st) = Inr st'"
        using "1.prems" guard False by (subst (asm) addConnectedVertices.simps) simp
      show ?thesis
      proof (rule fold_sum_invariant[OF fold, where I = ?I])
        show "?I st" by simp
      next
        fix x a b
        assume x: "x \<in> set (connections (vertices ! index))" and a: "?I a"
          and v: "visitConnection ?rec edges maxGlowNodes random index x a = Inr b"
        have "set (nodesToGlow a) \<subseteq> set (nodesToGlow b)"
          by (rule visitConnection_nodes_mono[OF _ v]) (use "1.IH"[OF guard False x] in blast)
        with a show "?I b" by auto
      qed
    qed
  qed
qed


text \<open>
  The work of the traversal is bounded: where no adjacency list has more than \<open>d\<close>
  entries, a traversal from depth 0 consumes at most \<open>d + d\<^sup>2 + d\<^sup>3\<close> draws.
\<close>

lemma drawBound_step:
  "depth \<le> 2 \<Longrightarrow> d * (1 + drawBound d (depth + 1)) = drawBound d depth"
  by (auto simp: drawBound_def power2_eq_square power3_eq_cube algebra_simps le_Suc_eq numeral_2_eq_2)

lemma fold_sum_count:
  assumes "fold (\<lambda>x. case_sum Inl (f x)) xs (Inr s) = Inr s'"
    and "\<And>x a b. x \<in> set xs \<Longrightarrow> f x a = Inr b \<Longrightarrow> m b \<le> m a + (c :: nat)"
  shows "m s' \<le> m s + length xs * c"
  using assms
proof (induction xs arbitrary: s)
  case Nil
  then show ?case by simp
next
  case (Cons x xs)
  show ?case
  proof (cases "f x s")
    case (Inl e)
    with Cons.prems(1) show ?thesis by (simp add: fold_Inl)
  next
    case (Inr b)
    have b: "m b \<le> m s + c" using Cons.prems(2)[of x s b] Inr by simp
    have step: "fold (\<lambda>x. case_sum Inl (f x)) xs (Inr b) = Inr s'"
      using Cons.prems(1) Inr by simp
    have "m s' \<le> m b + length xs * c"
      by (rule Cons.IH[OF step]) (use Cons.prems(2) in auto)
    with b show ?thesis by simp
  qed
qed

lemma visitConnection_draws:
  assumes rec: "\<And>s2 s3. recurse connectedIdx s2 = Inr s3 \<Longrightarrow> rng s3 \<le> rng s2 + c"
    and res: "visitConnection recurse edges maxGlowNodes random index connectedIdx s = Inr s'"
  shows "rng s' \<le> rng s + (1 + c)"
proof (cases "connectedIdx \<in> set (nodesToGlow s)")
  case True
  with res show ?thesis
    by (auto simp: visitConnection_def split: option.splits if_splits)
next
  case False
  note notsel = False
  show ?thesis
  proof (cases "random (rng s) > 0.7")
    case False
    with notsel res show ?thesis by (auto simp: visitConnection_def)
  next
    case True
    define s2 where "s2 = (case findIndex (joins index connectedIdx) edges of
         Some edgeIndex \<Rightarrow> s\<lparr>rng := rng s + 1, nodesToGlow := nodesToGlow s @ [connectedIdx],
            edgesToGlow := edgesToGlow (s\<lparr>rng := rng s + 1, nodesToGlow := nodesToGlow s @ [connectedIdx]\<rparr>) @ [edgeIndex]\<rparr>
       | None \<Rightarrow> s\<lparr>rng := rng s + 1, nodesToGlow := nodesToGlow s @ [connectedIdx]\<rparr>)"
    have rng2: "rng s2 = rng s + 1"
      unfolding s2_def by (simp split: option.splits)
    have res': "(if length (nodesToGlow s2) < maxGlowNodes then recurse connectedIdx s2 else Inr s2) = Inr s'"
      using res notsel True unfolding visitConnection_def s2_def Let_def
      by (simp only: if_False if_True)
    show ?thesis
    proof (cases "length (nodesToGlow s2) < maxGlowNodes")
      case True
      with res' have "recurse connectedIdx s2 = Inr s'" by simp
      from rec[OF this] rng2 show ?thesis by simp
    next
      case False
      with res' rng2 show ?thesis by auto
    qed
  qed
qed

lemma addConnectedVertices_draws:
  "\<forall>v\<in>set vertices. length (connections v) \<le> d \<Longrightarrow>
   addConnectedVertices vertices edges maxGlowNodes random index depth st = Inr st' \<Longrightarrow>
   rng st' \<le> rng st + drawBound d depth"
proof (induction vertices edges maxGlowNodes random index depth st arbitrary: st'
       rule: addConnectedVertices.induct)
  case (1 vertices edges maxGlowNodes random index depth st)
  show ?case
  proof (cases "depth > 2 \<or> length (nodesToGlow st) \<ge> maxGlowNodes")
    case True
    with "1.prems" show ?thesis by (simp add: addConnectedVertices.simps)
  next
    case False
    note guard = False
    show ?thesis
    proof (cases "index \<ge> length vertices")
      case True
      with guard "1.prems"(2) show ?thesis by (simp add: addConnectedVertices.simps)
    next
      case False
      let ?rec = "\<lambda>c s2. addConnectedVertices vertices edges maxGlowNodes random c (depth + 1) s2"
      let ?cs = "connections (vertices ! index)"
      have fold: "fold (\<lambda>c. case_sum Inl (visitConnection ?rec edges maxGlowNodes random index c))
                    ?cs (Inr st) = Inr st'"
        using "1.prems"(2) guard False by (subst (asm) addConnectedVertices.simps) simp
      have "rng st' \<le> rng st + length ?cs * (1 + drawBound d (depth + 1))"
      proof (rule fold_sum_count[OF fold])
        fix x a b
        assume x: "x \<in> set ?cs"
          and v: "visitConnection ?rec edges maxGlowNodes random index x a = Inr b"
        show "rng b \<le> rng a + (1 + drawBound d (depth + 1))"
          by (rule visitConnection_draws[OF _ v]) (use "1.IH"[OF guard False x "1.prems"(1)] in blast)
      qed
      moreover have "length ?cs \<le> d" using "1.prems"(1) False by simp
      then have "length ?cs * (1 + drawBound d (depth + 1)) \<le> d * (1 + drawBound d (depth + 1))"
        by (rule mult_le_mono1)
      moreover have "d * (1 + drawBound d (depth + 1)) = drawBound d depth"
        using guard by (intro drawBound_step) simp
      ultimately show ?thesis by simp
    qed
  qed
qed

text \<open>
  C9: the traversal terminates on every graph. For every adjacency structure, seed,
  cap, random source, depth and state, the argument lies in the domain on which the
  recursion of \<open>addConnectedVertices\<close> is well-founded: every chain of recursive calls
  is finite, since each call increments \<open>depth\<close> and a call past depth 2, or at the
  cap, returns its state at once. So the function returns a result everywhere, an
  exception or a final state, also on a fully connected graph.
\<close>

theorem addConnectedVertices_terminates:
  "addConnectedVertices_dom (vertices, edges, maxGlowNodes, random, index, depth, st) \<and>
   (depth > 2 \<or> maxGlowNodes \<le> length (nodesToGlow st) \<longrightarrow>
      addConnectedVertices vertices edges maxGlowNodes random index depth st = Inr st)"
proof -
  have "All addConnectedVertices_dom"
    by (relation "measure (\<lambda>(vertices, edges, maxGlowNodes, random, index, depth, st). 3 - depth)")
       auto
  then show ?thesis by (simp add: addConnectedVertices.simps)
qed

theorem addConnectedVertices_terminates_witness:
  "addConnectedVertices_dom
     (fst sixVertexCloud, fst (snd sixVertexCloud), 5, constantDraws 0.9, 0, 3,
      \<lparr>nodesToGlow = [0], edgesToGlow = [], rng = 0\<rparr>) \<and>
   addConnectedVertices (fst sixVertexCloud) (fst (snd sixVertexCloud)) 5 (constantDraws 0.9) 0 3
     \<lparr>nodesToGlow = [0], edgesToGlow = [], rng = 0\<rparr> =
   Inr \<lparr>nodesToGlow = [0], edgesToGlow = [], rng = 0\<rparr>"
  using addConnectedVertices_terminates
          [of "fst sixVertexCloud" "fst (snd sixVertexCloud)" 5 "constantDraws 0.9" 0 3
              "\<lparr>nodesToGlow = [0], edgesToGlow = [], rng = 0\<rparr>"]
  by simp

text \<open>
  C10: within one pulse, \<open>nodesToGlow\<close> and \<open>edgesToGlow\<close> hold no index twice, for
  every graph and every random source; since the pulse starts one fade-in per entry of
  either list, no vertex and no edge gets two fade-ins from the same pulse.
\<close>

theorem startGlowingSection_no_duplicates:
  assumes "startGlowingSection vertices0 edges0 random rng0 = Inr (vertices', edges', st)"
  shows "distinct (nodesToGlow st) \<and> distinct (edgesToGlow st)"
proof -
  let ?start = "nat \<lfloor>random rng0 * real (length (map resetGlow vertices0))\<rfloor>"
  let ?st0 = "\<lparr>nodesToGlow = [?start], edgesToGlow = [], rng = rng0 + 2\<rparr>"
  from assms have run: "addConnectedVertices (map resetGlow vertices0) (map resetGlow edges0)
      (nat \<lfloor>random (rng0 + 1) * 10\<rfloor> + 5) random ?start 0 ?st0 = Inr st"
    by (auto simp: startGlowingSection_def Let_def split: sum.splits)
  have "glow_inv (map resetGlow edges0) ?st0" by (simp add: glow_inv_def)
  with addConnectedVertices_inv[OF _ _ run] have "glow_inv (map resetGlow edges0) st" by simp
  then show ?thesis by (simp add: glow_inv_def)
qed

theorem startGlowingSection_no_duplicates_witness:
  "\<exists>vertices' edges'.
     startGlowingSection (squareVertices [1, 3] [0, 2] [1, 3] [2, 0]) squareEdges
       (drawsFrom [0, 0] 0.9) 0 =
     Inr (vertices', edges', \<lparr>nodesToGlow = [0, 1, 2, 3], edgesToGlow = [0, 1, 2, 3], rng = 5\<rparr>) \<and>
     distinct [0, 1, 2, 3 :: nat]"
proof -
  have "\<exists>vertices' edges'.
     startGlowingSection (squareVertices [1, 3] [0, 2] [1, 3] [2, 0]) squareEdges
       (drawsFrom [0, 0] 0.9) 0 =
     Inr (vertices', edges', \<lparr>nodesToGlow = [0, 1, 2, 3], edgesToGlow = [0, 1, 2, 3], rng = 5\<rparr>)"
    by (simp add: startGlowingSection_def squareVertices_def squareEdges_def vertexWith_def
          edgeBetween_def drawsFrom_def resetGlow_def markGlowing_def
          addConnectedVertices.simps visitConnection_def joins_def)
  then obtain vertices' edges' where run:
    "startGlowingSection (squareVertices [1, 3] [0, 2] [1, 3] [2, 0]) squareEdges
       (drawsFrom [0, 0] 0.9) 0 =
     Inr (vertices', edges', \<lparr>nodesToGlow = [0, 1, 2, 3], edgesToGlow = [0, 1, 2, 3], rng = 5\<rparr>)"
    by blast
  from startGlowingSection_no_duplicates[OF run] run show ?thesis by auto
qed


text \<open>
  C1, as amended: in the loop body, a neighbour that is not yet selected is included
  exactly when the draw exceeds 0.7 (for a uniform draw from [0, 1) that is the interval
  (0.7, 1), of length 0.3), and skipped, leaving the selection as it was and only the
  draw consumed, exactly when the draw is at most 0.7. So \<open>random() > 0.7\<close> is the
  condition to include, not the condition to skip.
\<close>

theorem visitConnection_includes_iff:
  assumes "connectedIdx \<notin> set (nodesToGlow s)"
    and "visitConnection
           (\<lambda>c s2. addConnectedVertices vertices edges maxGlowNodes random c (depth + 1) s2)
           edges maxGlowNodes random index connectedIdx s = Inr s'"
  shows "(connectedIdx \<in> set (nodesToGlow s') \<longleftrightarrow> random (rng s) > 0.7) \<and>
         (random (rng s) \<le> 0.7 \<longleftrightarrow> s' = s\<lparr>rng := rng s + 1\<rparr>)"
proof (cases "random (rng s) > 0.7")
  case False
  with assms have "s' = s\<lparr>rng := rng s + 1\<rparr>" by (simp add: visitConnection_def)
  with assms(1) False show ?thesis by simp
next
  case True
  let ?rec = "\<lambda>c s2. addConnectedVertices vertices edges maxGlowNodes random c (depth + 1) s2"
  define s2 where "s2 = (case findIndex (joins index connectedIdx) edges of
         Some edgeIndex \<Rightarrow> s\<lparr>rng := rng s + 1, nodesToGlow := nodesToGlow s @ [connectedIdx],
            edgesToGlow := edgesToGlow (s\<lparr>rng := rng s + 1, nodesToGlow := nodesToGlow s @ [connectedIdx]\<rparr>) @ [edgeIndex]\<rparr>
       | None \<Rightarrow> s\<lparr>rng := rng s + 1, nodesToGlow := nodesToGlow s @ [connectedIdx]\<rparr>)"
  have nodes2: "nodesToGlow s2 = nodesToGlow s @ [connectedIdx]"
    unfolding s2_def by (simp split: option.splits)
  have res': "(if length (nodesToGlow s2) < maxGlowNodes then ?rec connectedIdx s2 else Inr s2) = Inr s'"
    using assms True unfolding visitConnection_def s2_def Let_def
    by (simp only: if_False if_True)
  have "set (nodesToGlow s2) \<subseteq> set (nodesToGlow s')"
  proof (cases "length (nodesToGlow s2) < maxGlowNodes")
    case True
    with res' have "?rec connectedIdx s2 = Inr s'" by simp
    then show ?thesis by (rule addConnectedVertices_nodes_mono)
  next
    case False
    with res' show ?thesis by auto
  qed
  with nodes2 have "connectedIdx \<in> set (nodesToGlow s')" by auto
  moreover have "s' \<noteq> s\<lparr>rng := rng s + 1\<rparr>"
    using \<open>connectedIdx \<in> set (nodesToGlow s')\<close> assms(1) by auto
  ultimately show ?thesis using True by simp
qed


theorem visitConnection_includes_iff_witness:
  "1 \<notin> set (nodesToGlow \<lparr>nodesToGlow = [0], edgesToGlow = [], rng = 0\<rparr>) \<and>
   visitConnection
     (\<lambda>c s2. addConnectedVertices pairVertices pairEdges 5 (constantDraws 0.8) c (0 + 1) s2)
     pairEdges 5 (constantDraws 0.8) 0 1 \<lparr>nodesToGlow = [0], edgesToGlow = [], rng = 0\<rparr> =
   Inr \<lparr>nodesToGlow = [0, 1], edgesToGlow = [0], rng = 1\<rparr> \<and>
   (1 \<in> set (nodesToGlow \<lparr>nodesToGlow = [0, 1], edgesToGlow = [0], rng = 1\<rparr>)) =
   (constantDraws 0.8 0 > 0.7)"
proof -
  let ?s = "\<lparr>nodesToGlow = [0 :: nat], edgesToGlow = [], rng = 0\<rparr>"
  have notsel: "1 \<notin> set (nodesToGlow ?s)" by simp
  have run: "visitConnection
           (\<lambda>c s2. addConnectedVertices pairVertices pairEdges 5 (constantDraws 0.8) c (0 + 1) s2)
           pairEdges 5 (constantDraws 0.8) 0 1 ?s
         = Inr \<lparr>nodesToGlow = [0, 1], edgesToGlow = [0], rng = 1\<rparr>"
    by (simp add: pairVertices_def pairEdges_def vertexWith_def edgeBetween_def constantDraws_def
        drawsFrom_def addConnectedVertices.simps visitConnection_def joins_def)
  from visitConnection_includes_iff[OF notsel run] notsel run show ?thesis
    by (simp add: constantDraws_def drawsFrom_def)
qed

text \<open>
  Against C1 as stated (skipped exactly when the draw exceeds 0.7): on two vertices
  joined by one edge, seeded at vertex 0, a draw of 0.8 exceeds 0.7 and the neighbour 1
  is selected; a draw of 0.5 does not exceed 0.7 and the neighbour 1 is skipped.
\<close>

theorem skip_condition_counterexample:
  "0.7 < constantDraws 0.8 0 \<and>
   addConnectedVertices pairVertices pairEdges 5 (constantDraws 0.8) 0 0
     \<lparr>nodesToGlow = [0], edgesToGlow = [], rng = 0\<rparr> =
   Inr \<lparr>nodesToGlow = [0, 1], edgesToGlow = [0], rng = 1\<rparr> \<and>
   constantDraws 0.5 0 \<le> 0.7 \<and>
   addConnectedVertices pairVertices pairEdges 5 (constantDraws 0.5) 0 0
     \<lparr>nodesToGlow = [0], edgesToGlow = [], rng = 0\<rparr> =
   Inr \<lparr>nodesToGlow = [0], edgesToGlow = [], rng = 1\<rparr>"
  by (simp add: pairVertices_def pairEdges_def vertexWith_def edgeBetween_def constantDraws_def
        drawsFrom_def addConnectedVertices.simps visitConnection_def joins_def)

text \<open>The six-vertex graph, spelled out: adjacency lists and edges, in index order.\<close>

lemma sixVertexCloud_shape:
  "map connections (fst sixVertexCloud) =
     [[1, 2, 3, 4, 5], [0, 2, 3, 4, 5], [0, 1, 3, 4, 5], [0, 1, 2, 4, 5], [1, 2, 3, 0, 5],
      [2, 3, 4, 0, 1]] \<and>
   map (\<lambda>e. (from_v e, to_v e)) (fst (snd sixVertexCloud)) =
     [(0, 1), (0, 2), (0, 3), (1, 2), (1, 3), (1, 4), (2, 3), (2, 4), (2, 5), (3, 4), (3, 5),
      (4, 0), (4, 5), (5, 0), (5, 1)]"
  by (simp add: sixVertexCloud_def initializePointCloud_def createEdges_def createVertices_def
        newVertex_def connectNearest_def nearestUnconnected_def distanceTo_def joins_def
        numConnections_def cloudRadius_def Let_def constantDraws_def drawsFrom_def
        eval_nat_numeral)

text \<open>
  C2 fails on the code: the cap is tested on entry (line 325) and before the recursive
  call (line 358), not before the push of line 346, so the loop keeps selecting
  neighbours after the cap is reached. On the six-vertex graph, with the draws 0 (seed
  0), 0 (cap 5) and then 0.9 forever, the pulse selects all six vertices: vertex 1 from
  vertex 0, vertex 2 from vertex 1, and vertices 3, 4 and 5 from vertex 2, where the
  fifth and the sixth push happen in one loop.
\<close>

theorem startGlowingSection_exceeds_cap:
  "nat \<lfloor>drawsFrom [0, 0] 0.9 1 * 10\<rfloor> + 5 = 5 \<and>
   (case startGlowingSection (fst sixVertexCloud) (fst (snd sixVertexCloud))
           (drawsFrom [0, 0] 0.9) 0 of
      Inl e \<Rightarrow> False
    | Inr (vertices', edges', st) \<Rightarrow>
        nodesToGlow st = [0, 1, 2, 3, 4, 5] \<and> length (nodesToGlow st) = 6 \<and>
        edgesToGlow st = [0, 3, 1, 6, 7, 8, 4, 5, 14, 2, 11, 13] \<and> rng st = 7)"
  by (simp add: sixVertexCloud_def initializePointCloud_def createEdges_def createVertices_def
        newVertex_def connectNearest_def nearestUnconnected_def distanceTo_def joins_def
        numConnections_def cloudRadius_def Let_def constantDraws_def drawsFrom_def
        eval_nat_numeral startGlowingSection_def visitConnection_def resetGlow_def
        markGlowing_def addConnectedVertices.simps)

text \<open>
  C3: on the square 0-1, 1-2, 2-3, 3-0, seeded at vertex 0 with cap 4, under every
  random source whose draws all exceed 0.7 and for either order of each adjacency list,
  the traversal returns with exactly the four vertices selected and exactly the four
  edges marked, each once.
\<close>

theorem square_glow_selects_all:
  assumes draws: "\<forall>j. random j > 0.7"
    and c0: "c0 = [1, 3] \<or> c0 = [3, 1]"
    and c1: "c1 = [0, 2] \<or> c1 = [2, 0]"
    and c2: "c2 = [1, 3] \<or> c2 = [3, 1]"
    and c3: "c3 = [2, 0] \<or> c3 = [0, 2]"
  shows "\<exists>st. addConnectedVertices (squareVertices c0 c1 c2 c3) squareEdges 4 random 0 0
                 \<lparr>nodesToGlow = [0], edgesToGlow = [], rng = k\<rparr> = Inr st \<and>
              sort (nodesToGlow st) = [0, 1, 2, 3] \<and> sort (edgesToGlow st) = [0, 1, 2, 3]"
proof -
  have inc: "\<And>j. 7 < random j * 10" using draws by simp
  note defs = squareVertices_def squareEdges_def vertexWith_def edgeBetween_def
    addConnectedVertices.simps visitConnection_def joins_def
  from c0 c1 c2 c3 show ?thesis
    by (elim disjE; simp add: defs inc)
qed


theorem square_glow_selects_all_witness:
  "addConnectedVertices (squareVertices [1, 3] [0, 2] [1, 3] [2, 0]) squareEdges 4
     (constantDraws 0.9) 0 0 \<lparr>nodesToGlow = [0], edgesToGlow = [], rng = 0\<rparr> =
   Inr \<lparr>nodesToGlow = [0, 1, 2, 3], edgesToGlow = [0, 1, 2, 3], rng = 3\<rparr> \<and>
   sort [0, 1, 2, 3 :: nat] = [0, 1, 2, 3]"
proof -
  have ev: "addConnectedVertices (squareVertices [1, 3] [0, 2] [1, 3] [2, 0]) squareEdges 4
     (constantDraws 0.9) 0 0 \<lparr>nodesToGlow = [0], edgesToGlow = [], rng = 0\<rparr> =
   Inr \<lparr>nodesToGlow = [0, 1, 2, 3], edgesToGlow = [0, 1, 2, 3], rng = 3\<rparr>"
    by (simp add: squareVertices_def squareEdges_def vertexWith_def edgeBetween_def
      addConnectedVertices.simps visitConnection_def joins_def constantDraws_def drawsFrom_def)
  have "\<forall>j. constantDraws 0.9 j > 0.7" by (simp add: constantDraws_def drawsFrom_def)
  from square_glow_selects_all[OF this, of "[1, 3]" "[0, 2]" "[1, 3]" "[2, 0]" 0]
  have "sort (nodesToGlow \<lparr>nodesToGlow = [0, 1, 2, 3], edgesToGlow = [0, 1, 2, 3], rng = 3\<rparr>)
          = [0, 1, 2, 3]"
    unfolding ev by simp
  with ev show ?thesis by simp
qed

section \<open>Properties of the graph builder\<close>

lemma fold_invariant:
  assumes "I s" and "\<And>x a. x \<in> set xs \<Longrightarrow> I a \<Longrightarrow> I (f x a)"
  shows "I (fold f xs s)"
  using assms by (induction xs arbitrary: s) simp_all

lemma funpow_invariant:
  assumes "I s" and "\<And>a. I a \<Longrightarrow> I (f a)"
  shows "I ((f ^^ m) s)"
  using assms by (induction m) simp_all

lemma createVertices_eq:
  "createVertices n random = (map (\<lambda>i. newVertex random (3 * i)) [0..<n], 3 * n)"
  unfolding createVertices_def by (induction n) simp_all

lemma nearestUnconnected_Some:
  assumes "nearestUnconnected vertices i = Some (j, d)"
  shows "j < length vertices \<and> j \<noteq> i \<and> j \<notin> set (connections (vertices ! i))"
proof -
  let ?I = "\<lambda>nearest. \<forall>j d. nearest = Some (j, d) \<longrightarrow>
     j < length vertices \<and> j \<noteq> i \<and> j \<notin> set (connections (vertices ! i))"
  have "?I (nearestUnconnected vertices i)"
    unfolding nearestUnconnected_def
    by (rule fold_invariant) (auto simp: Let_def split: option.splits)
  with assms show ?thesis by blast
qed

lemma joins_pair: "joins a b e \<longleftrightarrow> {from_v e, to_v e} = {a, b}"
  by (auto simp: joins_def doubleton_eq_iff)

lemma connectNearest_inv:
  assumes inv: "graph_inv n vertices edges" and i: "i < n"
    and res: "connectNearest i (vertices, edges) = (vertices', edges')"
  shows "graph_inv n vertices' edges'"
proof (cases "nearestUnconnected vertices i")
  case None
  with res inv show ?thesis by (simp add: connectNearest_def)
next
  case (Some nd)
  obtain j d where nd: "nd = (j, d)" by (cases nd)
  have len: "length vertices = n" using inv unfolding graph_inv_def by blast
  from nearestUnconnected_Some[OF Some[unfolded nd]] len
  have j: "j < n" "j \<noteq> i" by simp_all
  define v1 where "v1 = vertices[i := (vertices ! i)\<lparr>connections := connections (vertices ! i) @ [j]\<rparr>]"
  define v2 where "v2 = v1[j := (v1 ! j)\<lparr>connections := connections (v1 ! j) @ [i]\<rparr>]"
  define newEdge where "newEdge = \<lparr>glowing = False, glowIntensity = 0, from_v = i, to_v = j\<rparr>"
  have res': "vertices' = v2"
     "edges' = (if \<not> list_ex (joins i j) edges then edges @ [newEdge] else edges)"
    using res Some nd by (auto simp add: connectNearest_def Let_def v1_def v2_def newEdge_def)
  have conns: "connections (v2 ! m) =
      connections (vertices ! m) @ (if m = i then [j] else if m = j then [i] else [])"
    if "m < n" for m
  proof -
    have "m = i \<or> m = j \<or> (m \<noteq> i \<and> m \<noteq> j)" by blast
    then show ?thesis
    proof (elim disjE)
      assume "m = i"
      then show ?thesis using len i j(2) unfolding v2_def v1_def by simp
    next
      assume "m = j"
      then show ?thesis using len j unfolding v2_def v1_def by simp
    next
      assume "m \<noteq> i \<and> m \<noteq> j"
      then show ?thesis unfolding v2_def v1_def by simp
    qed
  qed
  have len2: "length v2 = n" using len by (simp add: v2_def v1_def)
  have sym0: "\<forall>m<n. \<forall>x\<in>set (connections (vertices ! m)).
        x < n \<and> x \<noteq> m \<and> m \<in> set (connections (vertices ! x))"
    using inv unfolding graph_inv_def by blast
  have edges0: "\<forall>e\<in>set edges. from_v e \<noteq> to_v e \<and> from_v e < n \<and> to_v e < n \<and>
        to_v e \<in> set (connections (vertices ! from_v e))"
    using inv unfolding graph_inv_def by blast
  have sym: "\<forall>m<n. \<forall>x\<in>set (connections (v2 ! m)).
        x < n \<and> x \<noteq> m \<and> m \<in> set (connections (v2 ! x))"
  proof (intro allI impI ballI)
    fix m x assume m: "m < n" and x: "x \<in> set (connections (v2 ! m))"
    from x have "x \<in> set (connections (vertices ! m)) \<or> (m = i \<and> x = j) \<or> (m = j \<and> x = i)"
      unfolding conns[OF m] by (auto split: if_splits)
    then show "x < n \<and> x \<noteq> m \<and> m \<in> set (connections (v2 ! x))"
    proof (elim disjE)
      assume old: "x \<in> set (connections (vertices ! m))"
      with sym0 m have xs: "x < n" "x \<noteq> m" "m \<in> set (connections (vertices ! x))"
        by blast+
      show ?thesis unfolding conns[OF xs(1)] using xs by simp
    next
      assume "m = i \<and> x = j"
      then have mx: "m = i" "x = j" by simp_all
      show ?thesis unfolding mx conns[OF j(1)] using i j by simp
    next
      assume "m = j \<and> x = i"
      then have mx: "m = j" "x = i" by simp_all
      show ?thesis unfolding mx conns[OF i] using i j by simp
    qed
  qed
  have old_edges: "from_v e \<noteq> to_v e \<and> from_v e < n \<and> to_v e < n \<and>
        to_v e \<in> set (connections (v2 ! from_v e))" if "e \<in> set edges" for e
  proof -
    from edges0 that have e: "from_v e \<noteq> to_v e" "from_v e < n" "to_v e < n"
        "to_v e \<in> set (connections (vertices ! from_v e))"
      by blast+
    show ?thesis unfolding conns[OF e(2)] using e by simp
  qed
  have new_edge: "from_v newEdge \<noteq> to_v newEdge \<and> from_v newEdge < n \<and> to_v newEdge < n \<and>
        to_v newEdge \<in> set (connections (v2 ! from_v newEdge))"
    unfolding newEdge_def using i j conns[OF i] by simp
  have old_distinct: "\<forall>a<length edges. \<forall>b<length edges.
        a \<noteq> b \<longrightarrow> \<not> joins (from_v (edges ! a)) (to_v (edges ! a)) (edges ! b)"
    using inv unfolding graph_inv_def by blast
  show ?thesis
  proof (cases "list_ex (joins i j) edges")
    case True
    then have same: "edges' = edges" using res' by simp
    show ?thesis
      unfolding graph_inv_def res'(1) same using len2 sym old_edges old_distinct by blast
  next
    case False
    then have e': "edges' = edges @ [newEdge]" using res' by simp
    have fresh: "\<not> joins i j (edges ! a)" if "a < length edges" for a
      using False that by (auto simp: list_ex_iff)
    have distinct': "\<forall>a<length edges'. \<forall>b<length edges'.
        a \<noteq> b \<longrightarrow> \<not> joins (from_v (edges' ! a)) (to_v (edges' ! a)) (edges' ! b)"
    proof (intro allI impI)
      fix a b assume a: "a < length edges'" and b: "b < length edges'" and ab: "a \<noteq> b"
      consider "a < length edges" "b < length edges"
        | "a < length edges" "b = length edges"
        | "a = length edges" "b < length edges"
        using a b ab e' by (cases "a < length edges"; cases "b < length edges") auto
      then show "\<not> joins (from_v (edges' ! a)) (to_v (edges' ! a)) (edges' ! b)"
      proof cases
        case 1
        then show ?thesis using old_distinct ab by (simp add: e' nth_append)
      next
        case 2
        with fresh[of a] show ?thesis
          by (auto simp: e' nth_append newEdge_def joins_def)
      next
        case 3
        with fresh[of b] show ?thesis
          by (auto simp: e' nth_append newEdge_def joins_def)
      qed
    qed
    have edges_ok: "\<forall>e\<in>set edges'. from_v e \<noteq> to_v e \<and> from_v e < n \<and> to_v e < n \<and>
        to_v e \<in> set (connections (v2 ! from_v e))"
      using old_edges new_edge by (auto simp: e')
    show ?thesis
      unfolding graph_inv_def res'(1) using len2 sym edges_ok distinct' by blast
  qed
qed

lemma createEdges_inv:
  assumes "graph_inv n vertices0 []"
    and "createEdges random (vertices0, k0) = (vertices, edges, k)"
  shows "graph_inv n vertices edges"
proof -
  let ?I = "\<lambda>(vs, es, k :: nat). graph_inv n vs es"
  have n: "length vertices0 = n" using assms(1) unfolding graph_inv_def by blast
  have "?I (createEdges random (vertices0, k0))"
    unfolding createEdges_def prod.case
  proof (rule fold_invariant)
    show "?I (vertices0, [], k0)" using assms(1) by simp
  next
    fix i a assume i: "i \<in> set [0..<length vertices0]" and a: "?I a"
    obtain vs es k1 where a_eq: "a = (vs, es, k1)" by (cases a)
    let ?m = "nat \<lfloor>random k1 * 2\<rfloor> + numConnections"
    have "(\<lambda>(vs, es). graph_inv n vs es) ((connectNearest i ^^ ?m) (vs, es))"
    proof (rule funpow_invariant)
      show "(\<lambda>(vs, es). graph_inv n vs es) (vs, es)" using a a_eq by simp
    next
      fix p :: "Vertex list \<times> Edge list"
      assume p: "(\<lambda>(vs, es). graph_inv n vs es) p"
      obtain pv pe where p_eq: "p = (pv, pe)" by (cases p)
      obtain qv qe where q: "connectNearest i (pv, pe) = (qv, qe)" by (cases "connectNearest i (pv, pe)")
      from connectNearest_inv[OF _ _ q] p p_eq i n have "graph_inv n qv qe" by simp
      then show "(\<lambda>(vs, es). graph_inv n vs es) (connectNearest i p)" using q p_eq by simp
    qed
    then show "?I ((\<lambda>(vertices, edges, k).
        (let connectionsNeeded = nat \<lfloor>random k * 2\<rfloor> + numConnections;
             (vertices', edges') = (connectNearest i ^^ connectionsNeeded) (vertices, edges)
         in (vertices', edges', k + 1))) a)"
      by (simp add: a_eq Let_def split: prod.splits)
  qed
  with assms(2) show ?thesis by simp
qed

lemma createVertices_inv:
  "graph_inv n (fst (createVertices n random)) []"
  by (simp add: createVertices_eq graph_inv_def newVertex_def Let_def)

text \<open>The component builds its graph with \<open>numVertices\<close>, that is, 50 vertices.\<close>

lemma initializePointCloud_numVertices:
  "length (fst (initializePointCloud numVertices random)) = 50"
proof -
  have "initializePointCloud numVertices random =
      (fst (initializePointCloud numVertices random),
       fst (snd (initializePointCloud numVertices random)),
       snd (snd (initializePointCloud numVertices random)))"
    by simp
  then have "graph_inv numVertices (fst (initializePointCloud numVertices random))
      (fst (snd (initializePointCloud numVertices random)))"
    using createEdges_inv createVertices_inv
    by (metis initializePointCloud_def prod.collapse)
  then show ?thesis by (simp add: graph_inv_def numVertices_def)
qed

text \<open>
  C4: for every vertex count \<open>n\<close> (the component uses \<open>numVertices = 50\<close>) and every random
  source, the graph that \<open>initializePointCloud\<close> builds has \<open>n\<close> vertices; no edge joins a
  vertex to itself; no two edges have the same unordered pair of endpoints; adjacency is
  symmetric (\<open>j\<close> is recorded at \<open>i\<close> exactly when \<open>i\<close> is recorded at \<open>j\<close>, and every
  recorded connection is a valid index); and the two endpoints of every edge are
  recorded in each other's connections.
\<close>

theorem initializePointCloud_graph_invariants:
  assumes "initializePointCloud n random = (vertices, edges, k)"
  shows "length vertices = n \<and>
         (\<forall>e\<in>set edges. from_v e \<noteq> to_v e) \<and>
         (\<forall>a<length edges. \<forall>b<length edges. a \<noteq> b \<longrightarrow>
            {from_v (edges ! a), to_v (edges ! a)} \<noteq> {from_v (edges ! b), to_v (edges ! b)}) \<and>
         (\<forall>i<n. \<forall>j<n. j \<in> set (connections (vertices ! i)) \<longleftrightarrow>
                        i \<in> set (connections (vertices ! j))) \<and>
         (\<forall>i<n. \<forall>j\<in>set (connections (vertices ! i)).
            j < n \<and> i \<in> set (connections (vertices ! j))) \<and>
         (\<forall>e\<in>set edges. from_v e < n \<and> to_v e < n \<and>
            to_v e \<in> set (connections (vertices ! from_v e)) \<and>
            from_v e \<in> set (connections (vertices ! to_v e)))"
proof -
  obtain vs0 k0 where cv: "createVertices n random = (vs0, k0)" by (cases "createVertices n random")
  have "graph_inv n vs0 []" using createVertices_inv[of n random] cv by simp
  moreover have "createEdges random (vs0, k0) = (vertices, edges, k)"
    using assms cv by (simp add: initializePointCloud_def)
  ultimately have inv: "graph_inv n vertices edges" by (rule createEdges_inv)
  have sym: "\<forall>i<n. \<forall>j\<in>set (connections (vertices ! i)).
        j < n \<and> j \<noteq> i \<and> i \<in> set (connections (vertices ! j))"
    using inv unfolding graph_inv_def by blast
  have edges_ok: "\<forall>e\<in>set edges. from_v e \<noteq> to_v e \<and> from_v e < n \<and> to_v e < n \<and>
        to_v e \<in> set (connections (vertices ! from_v e))"
    using inv unfolding graph_inv_def by blast
  have 1: "length vertices = n" using inv unfolding graph_inv_def by blast
  have 2: "\<forall>e\<in>set edges. from_v e \<noteq> to_v e" using edges_ok by blast
  have 3: "\<forall>a<length edges. \<forall>b<length edges. a \<noteq> b \<longrightarrow>
            {from_v (edges ! a), to_v (edges ! a)} \<noteq> {from_v (edges ! b), to_v (edges ! b)}"
  proof (intro allI impI)
    fix a b assume "a < length edges" "b < length edges" "a \<noteq> b"
    with inv have "\<not> joins (from_v (edges ! a)) (to_v (edges ! a)) (edges ! b)"
      unfolding graph_inv_def by blast
    then show "{from_v (edges ! a), to_v (edges ! a)} \<noteq> {from_v (edges ! b), to_v (edges ! b)}"
      by (auto simp: joins_pair)
  qed
  have 4: "\<forall>i<n. \<forall>j<n. j \<in> set (connections (vertices ! i)) \<longleftrightarrow>
                        i \<in> set (connections (vertices ! j))"
    using sym by blast
  have 5: "\<forall>i<n. \<forall>j\<in>set (connections (vertices ! i)).
            j < n \<and> i \<in> set (connections (vertices ! j))"
    using sym by blast
  have 6: "\<forall>e\<in>set edges. from_v e < n \<and> to_v e < n \<and>
            to_v e \<in> set (connections (vertices ! from_v e)) \<and>
            from_v e \<in> set (connections (vertices ! to_v e))"
    using sym edges_ok by blast
  from 1 2 3 4 5 6 show ?thesis by blast
qed

lemma drawsFrom_range:
  assumes "\<forall>x\<in>set xs. 0 \<le> x \<and> x < 1" and "0 \<le> d \<and> d < 1"
  shows "0 \<le> drawsFrom xs d k \<and> drawsFrom xs d k < 1"
  using assms by (simp add: drawsFrom_def)

lemma lineCloud_value:
  "length (fst (initializePointCloud 5 lineDraws)) = 5 \<and>
   map connections (fst (initializePointCloud 5 lineDraws)) =
     [[1, 2, 3, 4], [0, 2, 3, 4], [0, 1, 3, 4], [0, 1, 2, 4], [1, 2, 3, 0]] \<and>
   map (\<lambda>e. (from_v e, to_v e)) (fst (snd (initializePointCloud 5 lineDraws))) =
     [(0, 1), (0, 2), (0, 3), (1, 2), (1, 3), (1, 4), (2, 3), (2, 4), (3, 4), (4, 0)] \<and>
   map initialPosition (fst (initializePointCloud 5 lineDraws)) =
     [Vector3 (- 5 / 2) 0 0, Vector3 (- 3 / 2) 0 0, Vector3 (- 1 / 2) 0 0, Vector3 (1 / 2) 0 0,
      Vector3 (3 / 2) 0 0]"
  by (simp add: initializePointCloud_def createEdges_def createVertices_def newVertex_def
        connectNearest_def nearestUnconnected_def distanceTo_def joins_def numConnections_def
        cloudRadius_def Let_def lineDraws_def drawsFrom_def eval_nat_numeral)

theorem initializePointCloud_graph_invariants_witness:
  "length (fst (initializePointCloud 5 lineDraws)) = 5 \<and>
   map connections (fst (initializePointCloud 5 lineDraws)) =
     [[1, 2, 3, 4], [0, 2, 3, 4], [0, 1, 3, 4], [0, 1, 2, 4], [1, 2, 3, 0]] \<and>
   map (\<lambda>e. (from_v e, to_v e)) (fst (snd (initializePointCloud 5 lineDraws))) =
     [(0, 1), (0, 2), (0, 3), (1, 2), (1, 3), (1, 4), (2, 3), (2, 4), (3, 4), (4, 0)]"
proof -
  have "initializePointCloud 5 lineDraws =
      (fst (initializePointCloud 5 lineDraws), fst (snd (initializePointCloud 5 lineDraws)),
       snd (snd (initializePointCloud 5 lineDraws)))"
    by simp
  from initializePointCloud_graph_invariants[OF this]
  have "length (fst (initializePointCloud 5 lineDraws)) = 5" by blast
  with lineCloud_value show ?thesis by blast
qed

lemma connectNearest_positions:
  "map initialPosition (fst (connectNearest i p)) = map initialPosition (fst p) \<and>
   map position (fst (connectNearest i p)) = map position (fst p)"
proof -
  obtain vs es where p: "p = (vs, es)" by (cases p)
  have upd: "map f (xs[a := (xs ! a)\<lparr>connections := cs\<rparr>]) = map f xs"
    if "\<And>v cs. f (v\<lparr>connections := cs\<rparr>) = f v" for f :: "Vertex \<Rightarrow> Vector3" and xs a cs
    by (simp add: map_update that) (metis list_update_beyond list_update_id map_update not_le_imp_less nth_map)
  show ?thesis
    unfolding p connectNearest_def
    by (simp add: Let_def upd split: option.splits prod.splits)
qed

lemma createEdges_positions:
  "map initialPosition (fst (createEdges random (vs0, k0))) = map initialPosition vs0 \<and>
   map position (fst (createEdges random (vs0, k0))) = map position vs0"
proof -
  let ?I = "\<lambda>(vs :: Vertex list, es :: Edge list, k :: nat).
      map initialPosition vs = map initialPosition vs0 \<and> map position vs = map position vs0"
  have "?I (createEdges random (vs0, k0))"
    unfolding createEdges_def prod.case
  proof (rule fold_invariant)
    show "?I (vs0, [], k0)" by simp
  next
    fix i a assume a: "?I a"
    obtain vs es k1 where a_eq: "a = (vs, es, k1)" by (cases a)
    let ?m = "nat \<lfloor>random k1 * 2\<rfloor> + numConnections"
    let ?J = "\<lambda>p. map initialPosition (fst p) = map initialPosition vs0 \<and>
                   map position (fst p) = map position vs0"
    have "?J ((connectNearest i ^^ ?m) (vs, es))"
      by (rule funpow_invariant) (use a a_eq connectNearest_positions in simp_all)
    then show "?I ((\<lambda>(vertices, edges, k).
        (let connectionsNeeded = nat \<lfloor>random k * 2\<rfloor> + numConnections;
             (vertices', edges') = (connectNearest i ^^ connectionsNeeded) (vertices, edges)
         in (vertices', edges', k + 1))) a)"
      by (auto simp: a_eq Let_def split: prod.splits)
  qed
  then show ?thesis by (auto split: prod.splits)
qed

lemma half_square: "0 \<le> r \<Longrightarrow> r < 1 \<Longrightarrow> (r - 1 / 2)\<^sup>2 \<le> (1 / 4 :: real)"
proof -
  assume "0 \<le> r" "r < 1"
  then have "\<bar>r - 1 / 2\<bar> \<le> \<bar>1 / 2 :: real\<bar>" by arith
  then have "(r - 1 / 2)\<^sup>2 \<le> (1 / 2 :: real)\<^sup>2" by (simp only: abs_le_square_iff)
  then show ?thesis by (simp add: power2_eq_square)
qed

lemma newVertex_inside:
  assumes "\<forall>k. 0 \<le> random k \<and> random k < 1"
  shows "insideEllipsoid cloudRadius cloudRadius (cloudRadius / 2) (initialPosition (newVertex random k))"
proof -
  let ?p = "initialPosition (newVertex random k)"
  have sq: "(random k - 1 / 2)\<^sup>2 \<le> 1 / 4" "(random (k + 1) - 1 / 2)\<^sup>2 \<le> 1 / 4"
       "(random (k + 2) - 1 / 2)\<^sup>2 \<le> 1 / 4"
    using assms half_square by blast+
  have x: "vec_x ?p / cloudRadius = random k - 1 / 2"
    and y: "vec_y ?p / cloudRadius = random (k + 1) - 1 / 2"
    and z: "vec_z ?p / (cloudRadius / 2) = random (k + 2) - 1 / 2"
    by (simp_all add: newVertex_def cloudRadius_def Let_def field_simps)
  show ?thesis
    unfolding insideEllipsoid_def x y z using sq by linarith
qed

text \<open>
  C7: for draws in [0, 1), as \<open>Math.random()\<close> returns them, every vertex the builder
  makes starts inside the ellipsoid with semi-axes \<open>cloudRadius\<close> in X and Y and half
  that in Z, and its position is its initial position.
\<close>

theorem initializePointCloud_inside_ellipsoid:
  assumes draws: "\<forall>k. 0 \<le> random k \<and> random k < 1"
    and built: "initializePointCloud n random = (vertices, edges, k)"
    and i: "i < n"
  shows "insideEllipsoid cloudRadius cloudRadius (cloudRadius / 2) (initialPosition (vertices ! i)) \<and>
         position (vertices ! i) = initialPosition (vertices ! i)"
proof -
  let ?vs0 = "map (\<lambda>i. newVertex random (3 * i)) [0..<n]"
  have "createEdges random (?vs0, 3 * n) = (vertices, edges, k)"
    using built by (simp add: initializePointCloud_def createVertices_eq)
  with createEdges_positions[of random ?vs0 "3 * n"]
  have maps: "map initialPosition vertices = map initialPosition ?vs0"
       "map position vertices = map position ?vs0"
    by simp_all
  from maps(1) have len: "length vertices = n" using length_map by (metis length_upt minus_nat.diff_0)
  have "initialPosition (vertices ! i) = map initialPosition vertices ! i" using i len by simp
  also have "\<dots> = initialPosition (newVertex random (3 * i))" unfolding maps(1) using i by simp
  finally have ip: "initialPosition (vertices ! i) = initialPosition (newVertex random (3 * i))" .
  have "position (vertices ! i) = map position vertices ! i" using i len by simp
  also have "\<dots> = position (newVertex random (3 * i))" unfolding maps(2) using i by simp
  finally have pp: "position (vertices ! i) = position (newVertex random (3 * i))" .
  show ?thesis
    unfolding ip pp using newVertex_inside[OF draws, of "3 * i"]
    by (simp add: newVertex_def Let_def)
qed

theorem initializePointCloud_inside_ellipsoid_witness:
  "insideEllipsoid cloudRadius cloudRadius (cloudRadius / 2) (Vector3 (- 5 / 2) 0 0) \<and>
   initialPosition (fst (initializePointCloud 5 lineDraws) ! 0) = Vector3 (- 5 / 2) 0 0"
proof -
  have draws: "\<forall>k. 0 \<le> lineDraws k \<and> lineDraws k < 1"
    unfolding lineDraws_def by (intro allI drawsFrom_range) simp_all
  have built: "initializePointCloud 5 lineDraws =
      (fst (initializePointCloud 5 lineDraws), fst (snd (initializePointCloud 5 lineDraws)),
       snd (snd (initializePointCloud 5 lineDraws)))"
    by simp
  have "map initialPosition (fst (initializePointCloud 5 lineDraws)) ! 0 = Vector3 (- 5 / 2) 0 0"
    using lineCloud_value by simp
  moreover have "map initialPosition (fst (initializePointCloud 5 lineDraws)) ! 0 =
      initialPosition (fst (initializePointCloud 5 lineDraws) ! 0)"
    by (rule nth_map) (use lineCloud_value in simp)
  ultimately have val:
    "initialPosition (fst (initializePointCloud 5 lineDraws) ! 0) = Vector3 (- 5 / 2) 0 0"
    by simp
  from initializePointCloud_inside_ellipsoid[OF draws built, of 0] val
  show ?thesis by simp
qed

text \<open>
  The positions fill the box with half-widths \<open>cloudRadius / 2\<close> in X and Y and
  \<open>cloudRadius / 4\<close> in Z. The ellipsoid with these half-widths as semi-axes does not
  hold all of them: three draws of 0 give a corner of the box, which lies outside it.
\<close>

lemma corner_outside_inscribed_ellipsoid:
  "\<not> insideEllipsoid (cloudRadius / 2) (cloudRadius / 2) (cloudRadius / 4)
       (initialPosition (newVertex (constantDraws 0) 0))"
  by (simp add: insideEllipsoid_def newVertex_def cloudRadius_def constantDraws_def
        drawsFrom_def Let_def)

section \<open>Properties of the geometry projector\<close>

lemma nth_concat_uniform:
  assumes "\<forall>x\<in>set xs. length (f x) = m" and "i < length xs" and "k < m"
  shows "concat (map f xs) ! (m * i + k) = f (xs ! i) ! k"
  using assms
proof (induction xs arbitrary: i)
  case Nil
  then show ?case by simp
next
  case (Cons x xs)
  show ?case
  proof (cases i)
    case 0
    with Cons.prems show ?thesis by (simp add: nth_append)
  next
    case (Suc j)
    have "m * i + k = length (f x) + (m * j + k)" using Suc Cons.prems(1) by simp
    then have "concat (map f (x # xs)) ! (m * i + k) = concat (map f xs) ! (m * j + k)"
      by (simp add: nth_append)
    also have "\<dots> = f (xs ! j) ! k" using Cons.IH[of j] Cons.prems Suc by simp
    finally show ?thesis using Suc by simp
  qed
qed

text \<open>The colour channels one edge writes, when both endpoints exist.\<close>

lemma edgeSegment_Inr:
  assumes "from_v edge < length vertices" and "to_v edge < length vertices"
  shows "\<exists>ps. edgeSegment vertices edge = Inr (ps,
     [col_r (lerp mattColor glowColor (max (glowIntensity (vertices ! from_v edge)) (glowIntensity edge))),
      col_g (lerp mattColor glowColor (max (glowIntensity (vertices ! from_v edge)) (glowIntensity edge))),
      col_b (lerp mattColor glowColor (max (glowIntensity (vertices ! from_v edge)) (glowIntensity edge))),
      col_r (lerp mattColor glowColor (max (glowIntensity (vertices ! to_v edge)) (glowIntensity edge))),
      col_g (lerp mattColor glowColor (max (glowIntensity (vertices ! to_v edge)) (glowIntensity edge))),
      col_b (lerp mattColor glowColor (max (glowIntensity (vertices ! to_v edge)) (glowIntensity edge)))])"
  using assms by (simp add: edgeSegment_def Let_def)

lemma updateLineGeometry_fold:
  assumes "\<forall>e\<in>set es. from_v e < length vertices \<and> to_v e < length vertices"
  shows "\<exists>ps. fold (\<lambda>edge r.
        case r of
          Inl e \<Rightarrow> Inl e
        | Inr (positions, colors) \<Rightarrow>
            (case edgeSegment vertices edge of
               Inl e \<Rightarrow> Inl e
             | Inr (ps, cs) \<Rightarrow> Inr (positions @ ps, colors @ cs)))
       es (Inr (ps0, cs0)) = Inr (ps, cs0 @ concat (map (segmentColors vertices) es))"
  using assms
proof (induction es arbitrary: ps0 cs0)
  case Nil
  then show ?case by simp
next
  case (Cons e es)
  from Cons.prems edgeSegment_Inr[of e vertices] obtain ps cs where
    seg: "edgeSegment vertices e = Inr (ps, cs)" by auto
  then have sc: "segmentColors vertices e = cs" by (simp add: segmentColors_def)
  from Cons.IH[of "ps0 @ ps" "cs0 @ cs"] Cons.prems
  show ?case by (simp add: seg sc)
qed

text \<open>
  C8: when the endpoints of all edges exist, \<open>updateLineGeometry\<close> returns, and for every
  edge \<open>i\<close> the three colour channels written for each endpoint are the interpolation
  from the matte colour to the glow colour by the maximum of that endpoint's
  \<open>glowIntensity\<close> and the edge's own; so the factor is at least the edge's intensity and
  at least the incident vertex's.
\<close>

theorem updateLineGeometry_endpoint_colors:
  assumes wf: "\<forall>e\<in>set edges. from_v e < length vertices \<and> to_v e < length vertices"
    and i: "i < length edges"
  shows "\<exists>positions colors. updateLineGeometry vertices edges = Inr (positions, colors) \<and>
     Color (colors ! (6 * i)) (colors ! (6 * i + 1)) (colors ! (6 * i + 2)) =
       lerp mattColor glowColor
         (max (glowIntensity (vertices ! from_v (edges ! i))) (glowIntensity (edges ! i))) \<and>
     Color (colors ! (6 * i + 3)) (colors ! (6 * i + 4)) (colors ! (6 * i + 5)) =
       lerp mattColor glowColor
         (max (glowIntensity (vertices ! to_v (edges ! i))) (glowIntensity (edges ! i))) \<and>
     glowIntensity (edges ! i)
       \<le> max (glowIntensity (vertices ! from_v (edges ! i))) (glowIntensity (edges ! i)) \<and>
     glowIntensity (vertices ! from_v (edges ! i))
       \<le> max (glowIntensity (vertices ! from_v (edges ! i))) (glowIntensity (edges ! i)) \<and>
     glowIntensity (edges ! i)
       \<le> max (glowIntensity (vertices ! to_v (edges ! i))) (glowIntensity (edges ! i)) \<and>
     glowIntensity (vertices ! to_v (edges ! i))
       \<le> max (glowIntensity (vertices ! to_v (edges ! i))) (glowIntensity (edges ! i))"
proof -
  let ?e = "edges ! i"
  let ?f = "lerp mattColor glowColor (max (glowIntensity (vertices ! from_v ?e)) (glowIntensity ?e))"
  let ?t = "lerp mattColor glowColor (max (glowIntensity (vertices ! to_v ?e)) (glowIntensity ?e))"
  from updateLineGeometry_fold[OF wf, of "[]" "[]"] obtain positions where
    run: "updateLineGeometry vertices edges =
       Inr (positions, concat (map (segmentColors vertices) edges))"
    by (auto simp: updateLineGeometry_def)
  have in_range: "from_v ?e < length vertices" "to_v ?e < length vertices"
    using wf i by simp_all
  have seg: "segmentColors vertices ?e =
      [col_r ?f, col_g ?f, col_b ?f, col_r ?t, col_g ?t, col_b ?t]"
    using edgeSegment_Inr[OF in_range] by (auto simp: segmentColors_def)
  have len6: "\<forall>e\<in>set edges. length (segmentColors vertices e) = 6"
  proof
    fix e assume "e \<in> set edges"
    with wf have "from_v e < length vertices" "to_v e < length vertices" by simp_all
    from edgeSegment_Inr[OF this] show "length (segmentColors vertices e) = 6"
      by (auto simp: segmentColors_def)
  qed
  have nth: "concat (map (segmentColors vertices) edges) ! (6 * i + k) =
      [col_r ?f, col_g ?f, col_b ?f, col_r ?t, col_g ?t, col_b ?t] ! k" if "k < 6" for k
    using nth_concat_uniform[OF len6 i that] seg by simp
  have "concat (map (segmentColors vertices) edges) ! (6 * i) = col_r ?f"
    using nth[of 0] by simp
  moreover have "concat (map (segmentColors vertices) edges) ! (6 * i + 1) = col_g ?f"
    using nth[of 1] by simp
  moreover have "concat (map (segmentColors vertices) edges) ! (6 * i + 2) = col_b ?f"
    using nth[of 2] by simp
  moreover have "concat (map (segmentColors vertices) edges) ! (6 * i + 3) = col_r ?t"
    using nth[of 3] by simp
  moreover have "concat (map (segmentColors vertices) edges) ! (6 * i + 4) = col_g ?t"
    using nth[of 4] by simp
  moreover have "concat (map (segmentColors vertices) edges) ! (6 * i + 5) = col_b ?t"
    using nth[of 5] by simp
  ultimately show ?thesis using run by simp
qed

theorem updateLineGeometry_endpoint_colors_witness:
  "updateLineGeometry glowingPairVertices glowingPairEdges =
     Inr ([0, 0, 0, 0, 0, 0], [131 / 170, 37 / 51, 28 / 85, 223 / 340, 2 / 3, 42 / 85]) \<and>
   Color (131 / 170) (37 / 51) (28 / 85) = lerp mattColor glowColor (max (1 / 2) (1 / 4)) \<and>
   Color (223 / 340) (2 / 3) (42 / 85) = lerp mattColor glowColor (max 0 (1 / 4))"
proof -
  have ev: "updateLineGeometry glowingPairVertices glowingPairEdges =
     Inr ([0, 0, 0, 0, 0, 0], [131 / 170, 37 / 51, 28 / 85, 223 / 340, 2 / 3, 42 / 85])"
    by (simp add: updateLineGeometry_def edgeSegment_def glowingPairVertices_def
          glowingPairEdges_def vertexWith_def edgeBetween_def lerp_def mattColor_def
          glowColor_def colorOfHex_def Let_def)
  have wf: "\<forall>e\<in>set glowingPairEdges.
      from_v e < length glowingPairVertices \<and> to_v e < length glowingPairVertices"
    by (simp add: glowingPairVertices_def glowingPairEdges_def edgeBetween_def)
  have i: "0 < length glowingPairEdges" by (simp add: glowingPairEdges_def)
  from updateLineGeometry_endpoint_colors[OF wf i] obtain positions colors where
    run: "updateLineGeometry glowingPairVertices glowingPairEdges = Inr (positions, colors)"
    and c: "Color (colors ! (6 * 0)) (colors ! (6 * 0 + 1)) (colors ! (6 * 0 + 2)) =
       lerp mattColor glowColor
         (max (glowIntensity (glowingPairVertices ! from_v (glowingPairEdges ! 0)))
              (glowIntensity (glowingPairEdges ! 0)))"
      "Color (colors ! (6 * 0 + 3)) (colors ! (6 * 0 + 4)) (colors ! (6 * 0 + 5)) =
       lerp mattColor glowColor
         (max (glowIntensity (glowingPairVertices ! to_v (glowingPairEdges ! 0)))
              (glowIntensity (glowingPairEdges ! 0)))"
    by blast
  from run ev have colors: "colors = [131 / 170, 37 / 51, 28 / 85, 223 / 340, 2 / 3, 42 / 85]"
    by simp
  have vals: "glowIntensity (glowingPairVertices ! from_v (glowingPairEdges ! 0)) = 1 / 2"
    "glowIntensity (glowingPairVertices ! to_v (glowingPairEdges ! 0)) = 0"
    "glowIntensity (glowingPairEdges ! 0) = 1 / 4"
    by (simp_all add: glowingPairVertices_def glowingPairEdges_def vertexWith_def edgeBetween_def)
  from c show ?thesis unfolding colors vals using ev by simp
qed

section \<open>Properties of the lifecycle\<close>

lemma map_of_filter_other:
  "i \<noteq> k \<Longrightarrow> map_of (filter (\<lambda>(j, d). j \<noteq> i) xs) k = map_of xs k"
  by (induction xs) auto

lemma map_of_filter_same:
  "map_of (filter (\<lambda>(j, d). j \<noteq> i) xs) i = None"
  by (induction xs) auto

lemma fire_stable:
  assumes "stablePhase n s" and "0 < n" and "fire ev s = Some s'"
  shows "stablePhase n s' \<and> stageRef s' = stageRef s"
proof -
  obtain t cb where ev: "ev = (t, cb)" by (cases ev)
  show ?thesis
  proof (cases cb)
    case FormingTimeout
    with assms ev show ?thesis by (simp add: stablePhase_def)
  next
    case (TweenComplete i)
    with assms ev have "i \<noteq> n - 1"
      by (auto simp: stablePhase_def split: option.splits)
    then have "int i \<noteq> int n - 1" using \<open>0 < n\<close> by auto
    with assms ev TweenComplete \<open>i \<noteq> n - 1\<close> show ?thesis
      by (auto simp: stablePhase_def onComplete_def map_of_filter_other
          split: option.splits if_splits)
  next
    case Frame
    with assms ev show ?thesis by (auto simp: stablePhase_def split: if_splits)
  next
    case GlowTimer
    with assms ev show ?thesis by (auto simp: stablePhase_def split: if_splits)
  qed
qed

lemma run_stable:
  assumes "0 < n"
  shows "stablePhase n s \<Longrightarrow> run evs s = Some s' \<Longrightarrow>
         stablePhase n s' \<and> transitions evs s = []"
proof (induction evs arbitrary: s)
  case Nil
  then show ?case by simp
next
  case (Cons ev evs)
  from Cons.prems(2) obtain s1 where f: "fire ev s = Some s1" and r: "run evs s1 = Some s'"
    by (auto split: option.splits)
  from fire_stable[OF Cons.prems(1) assms f] have "stablePhase n s1" "stageRef s1 = stageRef s"
    by simp_all
  with Cons.IH[OF _ r] f show ?case by simp
qed

lemma fire_forming:
  assumes "formingPhase n t1 s" and "0 < n" and "fire ev s = Some s'"
  shows "(formingPhase n t1 s' \<and> stageRef s' = stageRef s) \<or>
         (stablePhase n s' \<and> (\<exists>t2. t1 + 15000 \<le> t2 \<and> ev = (t2, TweenComplete (n - 1))))"
proof -
  obtain t cb where ev: "ev = (t, cb)" by (cases ev)
  show ?thesis
  proof (cases cb)
    case FormingTimeout
    with assms ev show ?thesis by (simp add: formingPhase_def)
  next
    case (TweenComplete i)
    show ?thesis
    proof (cases "i = n - 1")
      case True
      then have "int i = int n - 1" using \<open>0 < n\<close> by auto
      with assms ev TweenComplete True show ?thesis
        by (auto simp: formingPhase_def stablePhase_def onComplete_def map_of_filter_same
            split: option.splits if_splits)
    next
      case False
      then have "int i \<noteq> int n - 1" using \<open>0 < n\<close> by auto
      with assms ev TweenComplete False show ?thesis
        by (auto simp: formingPhase_def onComplete_def map_of_filter_other
            split: option.splits if_splits)
    qed
  next
    case Frame
    with assms ev show ?thesis by (auto simp: formingPhase_def split: if_splits)
  next
    case GlowTimer
    with assms ev show ?thesis by (auto simp: formingPhase_def split: if_splits)
  qed
qed

lemma run_forming:
  assumes "0 < n"
  shows "formingPhase n t1 s \<Longrightarrow> run evs s = Some s' \<Longrightarrow>
         (formingPhase n t1 s' \<and> transitions evs s = []) \<or>
         (stablePhase n s' \<and>
          (\<exists>t2. t1 + 15000 \<le> t2 \<and>
             transitions evs s = [((t2, TweenComplete (n - 1)), forming, stable)]))"
proof (induction evs arbitrary: s)
  case Nil
  then show ?case by simp
next
  case (Cons ev evs)
  from Cons.prems(2) obtain s1 where f: "fire ev s = Some s1" and r: "run evs s1 = Some s'"
    by (auto split: option.splits)
  have st: "stageRef s = forming" using Cons.prems(1) by (simp add: formingPhase_def)
  from fire_forming[OF Cons.prems(1) assms f] show ?case
  proof
    assume a: "formingPhase n t1 s1 \<and> stageRef s1 = stageRef s"
    with Cons.IH[OF _ r] f show ?thesis by simp
  next
    assume a: "stablePhase n s1 \<and> (\<exists>t2. t1 + 15000 \<le> t2 \<and> ev = (t2, TweenComplete (n - 1)))"
    then have s1: "stageRef s1 = stable" by (simp add: stablePhase_def)
    from a run_stable[OF assms _ r] have "stablePhase n s'" "transitions evs s1 = []" by simp_all
    with a f st s1 show ?thesis by auto
  qed
qed

lemma fire_initializing:
  assumes "initializingPhase n s" and "0 < n" and "fire ev s = Some s'"
  shows "(initializingPhase n s' \<and> stageRef s' = stageRef s) \<or>
         (\<exists>t1. 2000 \<le> t1 \<and> ev = (t1, FormingTimeout) \<and> formingPhase n t1 s')"
proof -
  obtain t cb where ev: "ev = (t, cb)" by (cases ev)
  show ?thesis
  proof (cases cb)
    case FormingTimeout
    have "map_of (map (\<lambda>i. (i, t + 15000)) [0..<n]) (n - 1) = Some (t + 15000)"
      using \<open>0 < n\<close> by (simp add: map_of_map_restrict restrict_map_def)
    with assms ev FormingTimeout show ?thesis
      by (auto simp: initializingPhase_def formingPhase_def setCircleTargets_def
          formingDuration_def split: if_splits)
  next
    case (TweenComplete i)
    with assms ev show ?thesis by (simp add: initializingPhase_def)
  next
    case Frame
    with assms ev show ?thesis by (auto simp: initializingPhase_def split: if_splits)
  next
    case GlowTimer
    with assms ev show ?thesis by (auto simp: initializingPhase_def split: if_splits)
  qed
qed

lemma run_initializing:
  assumes "0 < n"
  shows "initializingPhase n s \<Longrightarrow> run evs s = Some s' \<Longrightarrow>
     (initializingPhase n s' \<and> transitions evs s = []) \<or>
     (\<exists>t1. 2000 \<le> t1 \<and> formingPhase n t1 s' \<and>
        transitions evs s = [((t1, FormingTimeout), initializing, forming)]) \<or>
     (\<exists>t1 t2. 2000 \<le> t1 \<and> t1 + 15000 \<le> t2 \<and> stablePhase n s' \<and>
        transitions evs s = [((t1, FormingTimeout), initializing, forming),
                             ((t2, TweenComplete (n - 1)), forming, stable)])"
proof (induction evs arbitrary: s)
  case Nil
  then show ?case by simp
next
  case (Cons ev evs)
  from Cons.prems(2) obtain s1 where f: "fire ev s = Some s1" and r: "run evs s1 = Some s'"
    by (auto split: option.splits)
  have st: "stageRef s = initializing" using Cons.prems(1) by (simp add: initializingPhase_def)
  from fire_initializing[OF Cons.prems(1) assms f] show ?case
  proof
    assume a: "initializingPhase n s1 \<and> stageRef s1 = stageRef s"
    with Cons.IH[OF _ r] f show ?thesis by simp
  next
    assume "\<exists>t1. 2000 \<le> t1 \<and> ev = (t1, FormingTimeout) \<and> formingPhase n t1 s1"
    then obtain t1 where t1: "2000 \<le> t1" "ev = (t1, FormingTimeout)" "formingPhase n t1 s1"
      by blast
    then have s1: "stageRef s1 = forming" by (simp add: formingPhase_def)
    have tr: "transitions (ev # evs) s =
        ((t1, FormingTimeout), initializing, forming) # transitions evs s1"
      using f st s1 t1(2) by simp
    from run_forming[OF assms t1(3) r] show ?thesis
    proof
      assume "formingPhase n t1 s' \<and> transitions evs s1 = []"
      with tr t1(1) show ?thesis by auto
    next
      assume "stablePhase n s' \<and> (\<exists>t2. t1 + 15000 \<le> t2 \<and>
          transitions evs s1 = [((t2, TweenComplete (n - 1)), forming, stable)])"
      with tr t1(1) show ?thesis by auto
    qed
  qed
qed

text \<open>
  C5: with at least one vertex, along every run of callbacks the host can make after
  activation, the stage changes form an initial part of: initializing to forming, when
  the timeout runs, not before 2000 ms; then forming to stable, when the tween of the
  last-indexed vertex completes, not before 15000 ms later. Each change happens at most
  once, in this order, and nothing leads back; once no callback is pending, both have
  happened.
\<close>

theorem lifecycle_transitions_once_in_order:
  assumes "0 < n" and "run evs (activate n) = Some s"
  shows "((stageRef s = initializing \<and> transitions evs (activate n) = []) \<or>
          (\<exists>t1. 2000 \<le> t1 \<and> stageRef s = forming \<and>
             transitions evs (activate n) = [((t1, FormingTimeout), initializing, forming)]) \<or>
          (\<exists>t1 t2. 2000 \<le> t1 \<and> t1 + 15000 \<le> t2 \<and> stageRef s = stable \<and>
             transitions evs (activate n) =
               [((t1, FormingTimeout), initializing, forming),
                ((t2, TweenComplete (n - 1)), forming, stable)])) \<and>
         (timeout s = None \<and> tweens s = [] \<longrightarrow> stageRef s = stable)"
proof -
  have "initializingPhase n (activate n)" by (simp add: initializingPhase_def activate_def)
  from run_initializing[OF assms(1) this assms(2)] show ?thesis
    by (auto simp: initializingPhase_def formingPhase_def stablePhase_def)
qed

theorem lifecycle_transitions_once_in_order_witness:
  "run [(0, Frame), (2000, FormingTimeout), (2500, GlowTimer), (17000, TweenComplete 0),
        (17000, TweenComplete 1), (17000, TweenComplete 2), (17016, Frame)] (activate 3) =
     Some \<lparr>stageRef = stable, clock = 17016, timeout = None, tweens = [], vertexCount = 3\<rparr> \<and>
   transitions [(0, Frame), (2000, FormingTimeout), (2500, GlowTimer), (17000, TweenComplete 0),
        (17000, TweenComplete 1), (17000, TweenComplete 2), (17016, Frame)] (activate 3) =
     [((2000, FormingTimeout), initializing, forming),
      ((17000, TweenComplete 2), forming, stable)]"
proof -
  let ?evs = "[(0, Frame), (2000, FormingTimeout), (2500, GlowTimer), (17000, TweenComplete 0),
        (17000, TweenComplete 1), (17000, TweenComplete 2), (17016, Frame)]"
  let ?s = "\<lparr>stageRef = stable, clock = 17016, timeout = None, tweens = [], vertexCount = 3\<rparr>"
  have r: "run ?evs (activate 3) = Some ?s"
    by (simp add: activate_def setCircleTargets_def onComplete_def formingDuration_def upt_rec)
  have t: "transitions ?evs (activate 3) =
     [((2000, FormingTimeout), initializing, forming),
      ((17000, TweenComplete 2), forming, stable)]"
    by (simp add: activate_def setCircleTargets_def onComplete_def formingDuration_def upt_rec)
  have "(0 :: nat) < 3" by simp
  from lifecycle_transitions_once_in_order[OF this r] have "stageRef ?s = stable" by simp
  with r t show ?thesis by simp
qed

section \<open>Properties of the pulse animations\<close>
















end
